theory Spec2Isabelle
  imports Main "HOL-Library.Word" "HOL-Library.Multiset" "HOL-Library.Code_Target_Numeral"
begin

unbundle bit_operations_syntax

section \<open>Data model\<close>

text \<open>
  The reference packer \<^verbatim>\<open>Prepack\<close> of \<^verbatim>\<open>test_sqnbitgemm_neon_fp16.cpp\<close>, with which
  the test compares the output of the library's packer byte for byte, works on two
  \<^verbatim>\<open>std::vector<uint8_t>\<close> buffers. A byte is an 8-bit word, a buffer a list of bytes.
  The test passes two different vectors, so the state holds source and destination as
  two fields, and a store changes the destination only.
  The template parameters \<^verbatim>\<open>N\<close>, \<^verbatim>\<open>K\<close>, \<^verbatim>\<open>BlkLen\<close> and the stride \<^verbatim>\<open>Ldb\<close> are
  \<^verbatim>\<open>size_t\<close>, 64 bits wide on the ARM64 target the file is compiled for. The stride
  formula, which uses \<^verbatim>\<open>&\<close> and \<^verbatim>\<open>~\<close>, is kept on 64-bit words. Inside the packing
  loops sizes and indices are natural numbers below \<open>2^64\<close>, and every \<^verbatim>\<open>size_t\<close>
  sum or product is reduced modulo \<open>2^64\<close> by \<open>wrap64\<close>: reduction commutes with \<open>+\<close>
  and \<open>*\<close>, so reducing the value of an expression is reducing after each of its
  operations. An index is only used through \<^verbatim>\<open>operator[]\<close>, whose out-of-range use is
  undefined behaviour and is the value \<open>None\<close> here. The one \<^verbatim>\<open>int\<close> in the packer,
  the chunk counter of the tail loop, keeps its 32-bit range: incrementing it beyond
  \<^verbatim>\<open>INT_MAX\<close> is undefined behaviour, again \<open>None\<close>. A loop that does not end has no
  result either, which is \<open>None\<close> as well.
\<close>

type_synonym byte = "8 word"
type_synonym size_t = "64 word"

definition wrap64 :: "nat \<Rightarrow> nat" where
  "wrap64 x = x mod 2 ^ 64"

text \<open>
  Every assignment \<^verbatim>\<open>dst[j] = ...\<close> of the packer leaves one entry in a journal: which
  path made it, the source indices it read and the destination index it wrote. The
  journal is ghost state; it does not influence the buffers.
\<close>

datatype event =
    Transposed nat nat          \<comment> \<open>source index read, destination index written\<close>
  | Regrouped nat nat nat nat   \<comment> \<open>the two source indices read, the position \<open>i\<close>, destination index\<close>

record mem =
  src_buf :: "byte list"
  dst_buf :: "byte list"
  journal :: "event list"

definition load_src :: "mem \<Rightarrow> nat \<Rightarrow> byte option" where
  "load_src s i = (if i < length (src_buf s) then Some (src_buf s ! i) else None)"

definition store_dst :: "nat \<Rightarrow> byte \<Rightarrow> mem \<Rightarrow> mem option" where
  "store_dst j v s =
     (if j < length (dst_buf s) then Some (s\<lparr>dst_buf := (dst_buf s)[j := v]\<rparr>) else None)"

definition record_event :: "event \<Rightarrow> mem \<Rightarrow> mem" where
  "record_event e s = s\<lparr>journal := journal s @ [e]\<rparr>"

text \<open>A counted loop \<^verbatim>\<open>for (size_t x = 0; x < 8; x++)\<close> runs its body over \<open>[0..<8]\<close>.\<close>

fun for_each :: "nat list \<Rightarrow> (nat \<Rightarrow> mem \<Rightarrow> mem option) \<Rightarrow> mem \<Rightarrow> mem option" where
  "for_each [] body s = Some s"
| "for_each (x # xs) body s =
     (case body x s of None \<Rightarrow> None | Some s' \<Rightarrow> for_each xs body s')"

section \<open>The reference packer\<close>

text \<open>
  \<^verbatim>\<open>Transpose8x8<Ldb>(src, n, k, dst)\<close>: the body of the two nested loops, then the loops.
\<close>

definition Transpose8x8_body :: "nat \<Rightarrow> nat \<Rightarrow> nat \<Rightarrow> nat \<Rightarrow> nat \<Rightarrow> mem \<Rightarrow> mem option" where
  "Transpose8x8_body Ldb n k c r s =
     (let i = wrap64 ((n + c) * Ldb + r + k);
          j = wrap64 (n * Ldb + (r + k) * 8 + c)
      in case load_src s i of
           None \<Rightarrow> None
         | Some v \<Rightarrow> map_option (record_event (Transposed i j)) (store_dst j v s))"

definition Transpose8x8 :: "nat \<Rightarrow> nat \<Rightarrow> nat \<Rightarrow> mem \<Rightarrow> mem option" where
  "Transpose8x8 Ldb n k =
     for_each [0..<8] (\<lambda>c. for_each [0..<8] (\<lambda>r. Transpose8x8_body Ldb n k c r))"

text \<open>
  \<^verbatim>\<open>GetInt4(v, i)\<close> is \<^verbatim>\<open>(i & 1) ? (v >> 4) : (v & 0x0f)\<close>. The operands are promoted
  to \<^verbatim>\<open>int\<close> and the result converted back to \<^verbatim>\<open>uint8_t\<close>; on values below 256 this is
  the 8-bit operation.
\<close>

definition GetInt4 :: "byte \<Rightarrow> nat \<Rightarrow> byte" where
  "GetInt4 v i = (if i AND 1 \<noteq> 0 then drop_bit 4 v else v AND 0x0f)"

text \<open>
  \<^verbatim>\<open>PrepackSlice(src, j, dst)\<close>. The stored value \<^verbatim>\<open>v0 | (v1 << 4)\<close> is computed in
  \<^verbatim>\<open>int\<close> and truncated to a byte by the assignment, which is \<open>push_bit\<close> on bytes.
\<close>

definition PrepackSlice_body :: "nat \<Rightarrow> nat \<Rightarrow> mem \<Rightarrow> mem option" where
  "PrepackSlice_body j i s =
     (let a = wrap64 (j + drop_bit 1 i);
          b = wrap64 (j + drop_bit 1 (8 + i));
          d = wrap64 (j + i)
      in case load_src s a of
           None \<Rightarrow> None
         | Some x0 \<Rightarrow>
            (case load_src s b of
               None \<Rightarrow> None
             | Some x1 \<Rightarrow>
                 let v0 = GetInt4 x0 i;
                     v1 = GetInt4 x1 (i + 8)
                 in map_option (record_event (Regrouped a b i d))
                      (store_dst d (v0 OR push_bit 4 v1) s)))"

definition PrepackSlice :: "nat \<Rightarrow> mem \<Rightarrow> mem option" where
  "PrepackSlice j = for_each [0..<8] (\<lambda>i. PrepackSlice_body j i)"

text \<open>
  \<^verbatim>\<open>Prepack<Ldb, N, K>(src, dst)\<close>. The first loop nest, over full tiles of 8 columns,
  returns the column \<^verbatim>\<open>n\<close> it stopped at, where the second loop nest starts. Its two
  counters are \<^verbatim>\<open>size_t\<close>: \<^verbatim>\<open>k += 8\<close>, \<^verbatim>\<open>n += 8\<close> and the sum in the test
  \<^verbatim>\<open>n + 8 <= N\<close> wrap around, and neither loop need end.
\<close>

partial_function (option)
  Prepack_tile_chunks :: "nat \<Rightarrow> nat \<Rightarrow> nat \<Rightarrow> mem \<Rightarrow> mem option" where
  "Prepack_tile_chunks Ldb n k s =
     (if k < Ldb
      then (case Transpose8x8 Ldb n k s of
              None \<Rightarrow> None
            | Some s' \<Rightarrow> Prepack_tile_chunks Ldb n (wrap64 (k + 8)) s')
      else Some s)"

partial_function (option)
  Prepack_tiles :: "nat \<Rightarrow> nat \<Rightarrow> nat \<Rightarrow> mem \<Rightarrow> (nat \<times> mem) option" where
  "Prepack_tiles Ldb N n s =
     (if wrap64 (n + 8) \<le> N
      then (case Prepack_tile_chunks Ldb n 0 s of
              None \<Rightarrow> None
            | Some s' \<Rightarrow> Prepack_tiles Ldb N (wrap64 (n + 8)) s')
      else Some (n, s))"

declare Prepack_tile_chunks.simps [code] Prepack_tiles.simps [code]

definition INT_MAX :: nat where
  "INT_MAX = 2147483647"

text \<open>
  The tail loop declares its chunk counter as \<^verbatim>\<open>int k\<close>, where the tile loop has
  \<^verbatim>\<open>size_t k\<close>: the comparison \<^verbatim>\<open>k < Ldb\<close> converts it to \<^verbatim>\<open>size_t\<close> (it is never
  negative), and \<^verbatim>\<open>k += 8\<close> is a signed addition. The file is compiled for ARM64 only,
  where \<^verbatim>\<open>int\<close> has 32 bits. The chunk loop ends, as its counter cannot pass
  \<^verbatim>\<open>INT_MAX\<close>; the column counter \<^verbatim>\<open>n\<close> of the tail loop is a \<^verbatim>\<open>size_t\<close> again.
\<close>

function Prepack_tail_chunks :: "nat \<Rightarrow> nat \<Rightarrow> nat \<Rightarrow> mem \<Rightarrow> mem option" where
  "Prepack_tail_chunks Ldb n k s =
     (if k < Ldb
      then (case PrepackSlice (wrap64 (n * Ldb + k)) s of
              None \<Rightarrow> None
            | Some s' \<Rightarrow>
                if k + 8 \<le> INT_MAX then Prepack_tail_chunks Ldb n (k + 8) s' else None)
      else Some s)"
  by pat_completeness auto
termination
  by (relation "measure (\<lambda>(Ldb, n, k, s). Ldb - k)") auto

partial_function (option)
  Prepack_tail :: "nat \<Rightarrow> nat \<Rightarrow> nat \<Rightarrow> mem \<Rightarrow> mem option" where
  "Prepack_tail Ldb N n s =
     (if n < N
      then (case Prepack_tail_chunks Ldb n 0 s of
              None \<Rightarrow> None
            | Some s' \<Rightarrow> Prepack_tail Ldb N (wrap64 (n + 1)) s')
      else Some s)"

declare Prepack_tail.simps [code]

definition Prepack :: "nat \<Rightarrow> nat \<Rightarrow> mem \<Rightarrow> mem option" where
  "Prepack Ldb N s =
     (case Prepack_tiles Ldb N 0 s of
        None \<Rightarrow> None
      | Some (n, s') \<Rightarrow> Prepack_tail Ldb N n s')"

text \<open>
  \<^verbatim>\<open>TestPrepack<N, K, BlkLen>\<close>: the stride and the buffer size, in \<^verbatim>\<open>size_t\<close>
  arithmetic, and the call of the reference packer on a source buffer \<open>input\<close> and a
  zero-initialised destination of \<^verbatim>\<open>BufferSize\<close> bytes.
\<close>

definition Bits :: size_t where
  "Bits = 4"

definition Ldb_of :: "size_t \<Rightarrow> size_t \<Rightarrow> size_t" where
  "Ldb_of K BlkLen = (((K + BlkLen - 1) AND NOT (BlkLen - 1)) * Bits + 7) div 8"

definition BufferSize :: "size_t \<Rightarrow> size_t \<Rightarrow> size_t \<Rightarrow> size_t" where
  "BufferSize N K BlkLen = N * Ldb_of K BlkLen"

definition TestPrepack_ref :: "size_t \<Rightarrow> size_t \<Rightarrow> size_t \<Rightarrow> byte list \<Rightarrow> mem option" where
  "TestPrepack_ref N K BlkLen input =
     Prepack (unat (Ldb_of K BlkLen)) (unat N)
       \<lparr>src_buf = input,
        dst_buf = replicate (unat (BufferSize N K BlkLen)) 0,
        journal = []\<rparr>"

section \<open>The journal determines the run\<close>

text \<open>
  What an event stands for: the destination index it wrote, the source indices it read
  and the byte it stored. Replaying a list of events on a destination buffer performs
  their assignments in order.
\<close>

fun store_of :: "event \<Rightarrow> nat" where
  "store_of (Transposed i j) = j"
| "store_of (Regrouped a b i j) = j"

fun loads_of :: "event \<Rightarrow> nat list" where
  "loads_of (Transposed i j) = [i]"
| "loads_of (Regrouped a b i j) = [a, b]"

fun value_of :: "byte list \<Rightarrow> event \<Rightarrow> byte" where
  "value_of src (Transposed i j) = src ! i"
| "value_of src (Regrouped a b i j) = GetInt4 (src ! a) i OR push_bit 4 (GetInt4 (src ! b) (i + 8))"

definition replay :: "byte list \<Rightarrow> event list \<Rightarrow> byte list \<Rightarrow> byte list" where
  "replay src J d = fold (\<lambda>e d. d[store_of e := value_of src e]) J d"

definition commit :: "event list \<Rightarrow> mem \<Rightarrow> mem" where
  "commit J s = s\<lparr>dst_buf := replay (src_buf s) J (dst_buf s), journal := journal s @ J\<rparr>"

definition in_bounds :: "nat \<Rightarrow> nat \<Rightarrow> event \<Rightarrow> bool" where
  "in_bounds Ls Ld e \<longleftrightarrow> store_of e < Ld \<and> (\<forall>a \<in> set (loads_of e). a < Ls)"

text \<open>
  The events of each loop of the packer in closed form. \<open>offsets\<close>, \<open>tile_starts\<close> and
  \<open>tiles_end\<close> follow the loop headers \<^verbatim>\<open>for (k = 0; k < Ldb; k += 8)\<close> and
  \<^verbatim>\<open>for (; n + 8 <= N; n += 8)\<close>.
\<close>

definition tile_events :: "nat \<Rightarrow> nat \<Rightarrow> nat \<Rightarrow> event list" where
  "tile_events Ldb n k =
     concat (map (\<lambda>c. concat (map (\<lambda>r.
       [Transposed ((n + c) * Ldb + r + k) (n * Ldb + (r + k) * 8 + c)]) [0..<8])) [0..<8])"

definition slice_events :: "nat \<Rightarrow> event list" where
  "slice_events j =
     concat (map (\<lambda>i. [Regrouped (j + i div 2) (j + (8 + i) div 2) i (j + i)]) [0..<8])"

function offsets :: "nat \<Rightarrow> nat \<Rightarrow> nat list" where
  "offsets k Ldb = (if k < Ldb then k # offsets (k + 8) Ldb else [])"
  by pat_completeness auto
termination
  by (relation "measure (\<lambda>(k, Ldb). Ldb - k)") auto

function tile_starts :: "nat \<Rightarrow> nat \<Rightarrow> nat list" where
  "tile_starts n N = (if n + 8 \<le> N then n # tile_starts (n + 8) N else [])"
  by pat_completeness auto
termination
  by (relation "measure (\<lambda>(n, N). N - n)") auto

function tiles_end :: "nat \<Rightarrow> nat \<Rightarrow> nat" where
  "tiles_end n N = (if n + 8 \<le> N then tiles_end (n + 8) N else n)"
  by pat_completeness auto
termination
  by (relation "measure (\<lambda>(n, N). N - n)") auto

definition tile_column_events :: "nat \<Rightarrow> nat \<Rightarrow> event list" where
  "tile_column_events Ldb n = concat (map (tile_events Ldb n) (offsets 0 Ldb))"

definition tail_column_events :: "nat \<Rightarrow> nat \<Rightarrow> event list" where
  "tail_column_events Ldb n = concat (map (\<lambda>k. slice_events (n * Ldb + k)) (offsets 0 Ldb))"

definition Prepack_events :: "nat \<Rightarrow> nat \<Rightarrow> event list" where
  "Prepack_events Ldb N =
     concat (map (tile_column_events Ldb) (tile_starts 0 N)) @
     concat (map (tail_column_events Ldb) [tiles_end 0 N..<N])"

text \<open>
  The source layout in the specification's words: two 4-bit elements per byte, the
  element with the even index in the low nibble and the next one in the high nibble.
  \<open>source_element buf base e\<close> is element \<open>e\<close> of the elements stored from byte \<open>base\<close> on.
\<close>

definition source_element :: "byte list \<Rightarrow> nat \<Rightarrow> nat \<Rightarrow> byte" where
  "source_element buf base e =
     (if even e then buf ! (base + e div 2) AND 0x0f else drop_bit 4 (buf ! (base + e div 2)))"

text \<open>
  Where the accesses of one assignment lie. \<open>within_one_column\<close>: the indices read and the
  index written are in the byte range of one column. \<open>within_range\<close>: a transposing
  assignment stays in the byte range of one aligned tile of 8 columns; a regrouping
  assignment stays in one column and reads within the 8 bytes of its chunk.
\<close>

fun within_one_column :: "nat \<Rightarrow> event \<Rightarrow> bool" where
  "within_one_column Ldb (Transposed i j) \<longleftrightarrow> i div Ldb = j div Ldb"
| "within_one_column Ldb (Regrouped a b i j) \<longleftrightarrow> a div Ldb = j div Ldb \<and> b div Ldb = j div Ldb"

fun within_range :: "nat \<Rightarrow> event \<Rightarrow> bool" where
  "within_range Ldb (Transposed i j) \<longleftrightarrow> i div (8 * Ldb) = j div (8 * Ldb)"
| "within_range Ldb (Regrouped a b i j) \<longleftrightarrow>
     a div Ldb = j div Ldb \<and> b div Ldb = j div Ldb \<and>
     j - i \<le> a \<and> a < j - i + 8 \<and> j - i \<le> b \<and> b < j - i + 8"

definition journal_of :: "mem option \<Rightarrow> event list" where
  "journal_of r = (case r of None \<Rightarrow> [] | Some s \<Rightarrow> journal s)"

definition dst_of :: "mem option \<Rightarrow> byte list" where
  "dst_of r = (case r of None \<Rightarrow> [] | Some s \<Rightarrow> dst_buf s)"

text \<open>The path an assignment was made on, and the column of the source it read.\<close>

datatype path = Transpose_path | Regroup_path

fun path_of :: "event \<Rightarrow> path" where
  "path_of (Transposed i j) = Transpose_path"
| "path_of (Regrouped a b i j) = Regroup_path"

fun source_column :: "nat \<Rightarrow> event \<Rightarrow> nat" where
  "source_column Ldb (Transposed i j) = i div Ldb"
| "source_column Ldb (Regrouped a b i j) = a div Ldb"

text \<open>The events of the two loop nests of the packer.\<close>

definition tiles_part :: "nat \<Rightarrow> nat \<Rightarrow> event list" where
  "tiles_part Ldb N = concat (map (tile_column_events Ldb) (tile_starts 0 N))"

definition tail_part :: "nat \<Rightarrow> nat \<Rightarrow> event list" where
  "tail_part Ldb N = concat (map (tail_column_events Ldb) [tiles_end 0 N..<N])"

text \<open>
  The stride in the specification's words, on unbounded natural numbers: \<open>K_padded\<close> is
  \<open>K\<close> rounded up to the next multiple of the block length, and the stride is
  \<open>ceil(K_padded * 4 / 8)\<close>.
\<close>

definition K_padded :: "nat \<Rightarrow> nat \<Rightarrow> nat" where
  "K_padded K BlkLen = (K + BlkLen - 1) div BlkLen * BlkLen"

definition Ldb_spec :: "nat \<Rightarrow> nat \<Rightarrow> nat" where
  "Ldb_spec K BlkLen = (K_padded K BlkLen * 4 + 7) div 8"

text \<open>
  The 4-bit values of a buffer, two per byte in the order low nibble, high nibble.
\<close>

definition nibbles_of :: "byte \<Rightarrow> byte list" where
  "nibbles_of b = [b AND 0x0f, drop_bit 4 b]"

definition nibbles :: "byte list \<Rightarrow> byte list" where
  "nibbles buf = concat (map nibbles_of buf)"

text \<open>The source index whose byte (or whose first byte) an assignment reads.\<close>

fun source_index :: "event \<Rightarrow> nat" where
  "source_index (Transposed i j) = i"
| "source_index (Regrouped a b i j) = a"

text \<open>
  The addressing rules of the specification. In the source, element \<open>e\<close> of column \<open>col\<close>
  is in byte \<open>col * Ldb + e div 2\<close>, low nibble first. In the packed buffer an element of
  a column of a full tile is in the byte the 8x8 transposition moved its byte to, in the
  same nibble; an element of a tail column is in the chunk of its 16 elements, at the
  byte \<open>e mod 8\<close>, in the low nibble for the first 8 elements of the chunk and in the
  high nibble for the last 8. \<open>mappings\<close> lists \<open>(column, index, value)\<close> for all elements.
\<close>

definition source_nibble :: "nat \<Rightarrow> byte list \<Rightarrow> nat \<Rightarrow> nat \<Rightarrow> byte" where
  "source_nibble Ldb buf col e = source_element buf (col * Ldb) e"

definition packed_nibble :: "nat \<Rightarrow> nat \<Rightarrow> byte list \<Rightarrow> nat \<Rightarrow> nat \<Rightarrow> byte" where
  "packed_nibble Ldb N buf col e =
     (if col < 8 * (N div 8)
      then (let b = buf ! (col div 8 * 8 * Ldb + e div 2 * 8 + col mod 8)
            in if even e then b AND 0x0f else drop_bit 4 b)
      else (let b = buf ! (col * Ldb + e div 16 * 8 + e mod 8)
            in if e mod 16 < 8 then b AND 0x0f else drop_bit 4 b))"

definition mappings :: "nat \<Rightarrow> nat \<Rightarrow> (nat \<Rightarrow> nat \<Rightarrow> byte) \<Rightarrow> (nat \<times> nat \<times> byte) list" where
  "mappings Ldb N f = map (\<lambda>(col, e). (col, e, f col e)) (List.product [0..<N] [0..<2 * Ldb])"

section \<open>The cast tests\<close>

text \<open>
  \<^verbatim>\<open>TestFp16ToFp32<count>\<close> fills \<^verbatim>\<open>src[i]\<close> with the 16-bit pattern \<open>i\<close>, runs the
  widening kernel and compares each result with the reference conversion, except where
  \<^verbatim>\<open>(src[i] & 0x1c00) == 0x1c00\<close>, commented \<^verbatim>\<open>// skip inf and nan\<close>. The kernel and the
  reference conversion are not in the sources and are parameters; \<open>'f\<close> stands for
  \<^verbatim>\<open>float\<close>. The test passes when every comparison made succeeds.
\<close>

definition skips_comparison :: "16 word \<Rightarrow> bool" where
  "skips_comparison p \<longleftrightarrow> p AND 0x1c00 = 0x1c00"

definition TestFp16ToFp32 ::
    "nat \<Rightarrow> (16 word list \<Rightarrow> nat \<Rightarrow> 'f list) \<Rightarrow> (16 word \<Rightarrow> 'f) \<Rightarrow> bool" where
  "TestFp16ToFp32 cnt cast reference =
     (let src = map of_nat [0..<cnt];
          dest = cast src cnt
      in list_all (\<lambda>i. skips_comparison (src ! i) \<or> dest ! i = reference (src ! i)) [0..<cnt])"

text \<open>
  The patterns that encode infinity or NaN, in the specification's words: all five
  exponent bits set, \<^verbatim>\<open>(p & 0x7C00) == 0x7C00\<close>.
\<close>

definition encodes_inf_or_nan :: "16 word \<Rightarrow> bool" where
  "encodes_inf_or_nan p \<longleftrightarrow> p AND 0x7C00 = 0x7C00"






section \<open>Running the packer\<close>

declare offsets.simps [simp del] tile_starts.simps [simp del] tiles_end.simps [simp del]
declare Prepack_tail_chunks.simps [simp del]

lemma wrap64_id [simp]: "x < 2 ^ 64 \<Longrightarrow> wrap64 x = x"
  by (simp add: wrap64_def)

lemma length_replay [simp]: "length (replay src J d) = length d"
  unfolding replay_def by (induction J arbitrary: d) auto

lemma commit_Nil [simp]: "commit [] s = s"
  by (simp add: commit_def replay_def)

lemma commit_commit: "commit J2 (commit J1 s) = commit (J1 @ J2) s"
  by (simp add: commit_def replay_def)

lemma commit_fields [simp]:
  "src_buf (commit J s) = src_buf s"
  "length (dst_buf (commit J s)) = length (dst_buf s)"
  "journal (commit J s) = journal s @ J"
  by (simp_all add: commit_def)

lemma Transpose8x8_body_commit:
  assumes "(n + c) * Ldb + r + k < length (src_buf s)"
    and "n * Ldb + (r + k) * 8 + c < length (dst_buf s)"
    and "length (src_buf s) < 2 ^ 64" "length (dst_buf s) < 2 ^ 64"
  shows "Transpose8x8_body Ldb n k c r s =
           Some (commit [Transposed ((n + c) * Ldb + r + k) (n * Ldb + (r + k) * 8 + c)] s)"
proof -
  have "wrap64 ((n + c) * Ldb + r + k) = (n + c) * Ldb + r + k"
    "wrap64 (n * Ldb + (r + k) * 8 + c) = n * Ldb + (r + k) * 8 + c"
    using assms by (intro wrap64_id; linarith)+
  then show ?thesis
    using assms(1,2)
    by (simp add: Transpose8x8_body_def load_src_def store_dst_def record_event_def
        commit_def replay_def Let_def)
qed

lemma PrepackSlice_body_commit:
  assumes "i < 8" "j + 8 \<le> length (src_buf s)" "j + 8 \<le> length (dst_buf s)"
    and "length (src_buf s) < 2 ^ 64" "length (dst_buf s) < 2 ^ 64"
  shows "PrepackSlice_body j i s =
           Some (commit [Regrouped (j + i div 2) (j + (8 + i) div 2) i (j + i)] s)"
proof -
  have less: "j + i div 2 < length (src_buf s)" "j + (8 + i) div 2 < length (src_buf s)"
    "j + i < length (dst_buf s)"
    using assms by linarith+
  then have "wrap64 (j + i div 2) = j + i div 2" "wrap64 (j + (8 + i) div 2) = j + (8 + i) div 2"
    "wrap64 (j + i) = j + i"
    using assms(4,5) by (intro wrap64_id; linarith)+
  with less show ?thesis
    by (simp add: PrepackSlice_body_def load_src_def store_dst_def record_event_def
        commit_def replay_def Let_def drop_bit_eq_div)
qed

lemma for_each_commit:
  assumes "\<And>x t. x \<in> set xs \<Longrightarrow> length (src_buf t) = length (src_buf s) \<Longrightarrow>
             length (dst_buf t) = length (dst_buf s) \<Longrightarrow> body x t = Some (commit (ev x) t)"
  shows "for_each xs body s = Some (commit (concat (map ev xs)) s)"
  using assms
proof (induction xs arbitrary: s)
  case Nil
  then show ?case by simp
next
  case (Cons x xs)
  have step: "body x s = Some (commit (ev x) s)"
    by (rule Cons.prems) simp_all
  have "for_each xs body (commit (ev x) s) = Some (commit (concat (map ev xs)) (commit (ev x) s))"
    by (rule Cons.IH) (simp add: Cons.prems)
  with step show ?case
    by (simp add: commit_commit)
qed

lemma column_bound:
  fixes n c Ldb x :: nat
  assumes "c < m" "x < Ldb"
  shows "(n + c) * Ldb + x < (n + m) * Ldb"
proof -
  have "(n + c) * Ldb + x < (n + c) * Ldb + Ldb"
    using assms by simp
  also have "\<dots> = (n + c + 1) * Ldb"
    by (simp add: algebra_simps)
  also have "\<dots> \<le> (n + m) * Ldb"
    using assms by (intro mult_le_mono1) simp
  finally show ?thesis .
qed

lemma Transpose8x8_commit:
  assumes "k + 8 \<le> Ldb" "(n + 8) * Ldb \<le> length (src_buf s)"
    "(n + 8) * Ldb \<le> length (dst_buf s)"
    "length (src_buf s) < 2 ^ 64" "length (dst_buf s) < 2 ^ 64"
  shows "Transpose8x8 Ldb n k s = Some (commit (tile_events Ldb n k) s)"
  unfolding Transpose8x8_def tile_events_def
proof (rule for_each_commit, rule for_each_commit, rule Transpose8x8_body_commit)
  fix c r t t'
  assume c: "c \<in> set [0..<8]" and r: "r \<in> set [0..<8]"
    and t: "length (src_buf t) = length (src_buf s)" "length (dst_buf t) = length (dst_buf s)"
    and t': "length (src_buf t') = length (src_buf t)" "length (dst_buf t') = length (dst_buf t)"
  have "(n + c) * Ldb + (r + k) < (n + 8) * Ldb"
    using c r assms(1) by (intro column_bound) auto
  then show "(n + c) * Ldb + r + k < length (src_buf t')"
    using assms(2) t t' by simp
  have "n * Ldb + (r + k) * 8 + c < n * Ldb + 8 * Ldb"
    using c r assms(1) by auto
  also have "\<dots> = (n + 8) * Ldb"
    by (simp add: algebra_simps)
  finally show "n * Ldb + (r + k) * 8 + c < length (dst_buf t')"
    using assms(3) t t' by simp
  show "length (src_buf t') < 2 ^ 64" "length (dst_buf t') < 2 ^ 64"
    using assms(4,5) t t' by simp_all
qed

lemma PrepackSlice_commit:
  assumes "j + 8 \<le> length (src_buf s)" "j + 8 \<le> length (dst_buf s)"
    "length (src_buf s) < 2 ^ 64" "length (dst_buf s) < 2 ^ 64"
  shows "PrepackSlice j s = Some (commit (slice_events j) s)"
  unfolding PrepackSlice_def slice_events_def
  by (rule for_each_commit, rule PrepackSlice_body_commit) (use assms in auto)

lemma stride_fits:
  assumes "(n + 1) * Ldb \<le> B" "B < (2::nat) ^ 64"
  shows "Ldb < 2 ^ 64"
proof -
  have "Ldb \<le> (n + 1) * Ldb"
    by simp
  with assms show ?thesis
    by linarith
qed

lemma Prepack_tile_chunks_commit:
  assumes "8 dvd k" "8 dvd Ldb" "(n + 8) * Ldb \<le> length (src_buf s)"
    "(n + 8) * Ldb \<le> length (dst_buf s)"
    "length (src_buf s) < 2 ^ 64" "length (dst_buf s) < 2 ^ 64"
  shows "Prepack_tile_chunks Ldb n k s =
           Some (commit (concat (map (tile_events Ldb n) (offsets k Ldb))) s)"
  using assms
proof (induction "Ldb - k" arbitrary: k s rule: less_induct)
  case less
  show ?case
  proof (cases "k < Ldb")
    case False
    then show ?thesis
      by (simp add: Prepack_tile_chunks.simps [of Ldb n k] offsets.simps [of k])
  next
    case True
    with less.prems have k8: "k + 8 \<le> Ldb"
      by (auto simp: dvd_def)
    have "Ldb \<le> (n + 8) * Ldb"
      by simp
    with less.prems have "Ldb < 2 ^ 64"
      by linarith
    with k8 have next_k: "wrap64 (k + 8) = k + 8"
      by (intro wrap64_id) linarith
    have step: "Transpose8x8 Ldb n k s = Some (commit (tile_events Ldb n k) s)"
      using k8 less.prems by (intro Transpose8x8_commit)
    have "Prepack_tile_chunks Ldb n (k + 8) (commit (tile_events Ldb n k) s) =
            Some (commit (concat (map (tile_events Ldb n) (offsets (k + 8) Ldb)))
                   (commit (tile_events Ldb n k) s))"
      using True less.prems by (intro less.hyps) simp_all
    with True step next_k show ?thesis
      by (simp add: Prepack_tile_chunks.simps [of Ldb n k] offsets.simps [of k] commit_commit)
  qed
qed

lemma tiles_end_le: "n \<le> N \<Longrightarrow> tiles_end n N \<le> N"
  by (induction n N rule: tiles_end.induct) (simp add: tiles_end.simps)

lemma tiles_end_ge: "n \<le> tiles_end n N"
proof (induction n N rule: tiles_end.induct)
  case (1 n N)
  then show ?case
    by (cases "n + 8 \<le> N") (simp_all add: tiles_end.simps [of n N])
qed

lemma Prepack_tiles_commit:
  assumes "8 dvd Ldb" "n \<le> N" "N * Ldb \<le> length (src_buf s)" "N * Ldb \<le> length (dst_buf s)"
    "length (src_buf s) < 2 ^ 64" "length (dst_buf s) < 2 ^ 64" "N + 8 < 2 ^ 64"
  shows "Prepack_tiles Ldb N n s =
           Some (tiles_end n N, commit (concat (map (tile_column_events Ldb) (tile_starts n N))) s)"
  using assms
proof (induction "N - n" arbitrary: n s rule: less_induct)
  case less
  have next_n: "wrap64 (n + 8) = n + 8"
    using less.prems by (intro wrap64_id) linarith
  show ?case
  proof (cases "n + 8 \<le> N")
    case False
    with next_n show ?thesis
      by (simp add: Prepack_tiles.simps [of Ldb N n] tile_starts.simps [of n] tiles_end.simps [of n])
  next
    case True
    then have "(n + 8) * Ldb \<le> N * Ldb"
      by (intro mult_le_mono1)
    then have "(n + 8) * Ldb \<le> length (src_buf s)" "(n + 8) * Ldb \<le> length (dst_buf s)"
      using less.prems by linarith+
    then have step: "Prepack_tile_chunks Ldb n 0 s = Some (commit (tile_column_events Ldb n) s)"
      unfolding tile_column_events_def using less.prems
      by (intro Prepack_tile_chunks_commit) simp_all
    have "Prepack_tiles Ldb N (n + 8) (commit (tile_column_events Ldb n) s) =
            Some (tiles_end (n + 8) N,
              commit (concat (map (tile_column_events Ldb) (tile_starts (n + 8) N)))
                (commit (tile_column_events Ldb n) s))"
      using True less.prems by (intro less.hyps) simp_all
    with True step next_n show ?thesis
      by (simp add: Prepack_tiles.simps [of Ldb N n] tile_starts.simps [of n]
          tiles_end.simps [of n] commit_commit)
  qed
qed

lemma Prepack_tail_chunks_commit:
  assumes "8 dvd k" "8 dvd Ldb" "Ldb \<le> INT_MAX" "(n + 1) * Ldb \<le> length (src_buf s)"
    "(n + 1) * Ldb \<le> length (dst_buf s)"
    "length (src_buf s) < 2 ^ 64" "length (dst_buf s) < 2 ^ 64"
  shows "Prepack_tail_chunks Ldb n k s =
           Some (commit (concat (map (\<lambda>k. slice_events (n * Ldb + k)) (offsets k Ldb))) s)"
  using assms
proof (induction Ldb n k s rule: Prepack_tail_chunks.induct)
  case (1 Ldb n k s)
  show ?case
  proof (cases "k < Ldb")
    case False
    then show ?thesis
      by (simp add: Prepack_tail_chunks.simps [of Ldb n k] offsets.simps [of k])
  next
    case True
    with "1.prems" have k8: "k + 8 \<le> Ldb"
      by (auto simp: dvd_def)
    then have fits: "k + 8 \<le> INT_MAX"
      using "1.prems" by simp
    have chunk: "n * Ldb + k + 8 \<le> (n + 1) * Ldb"
      using k8 by (simp add: algebra_simps)
    with "1.prems" have j: "wrap64 (n * Ldb + k) = n * Ldb + k"
      by (intro wrap64_id) linarith
    from chunk have step: "PrepackSlice (n * Ldb + k) s = Some (commit (slice_events (n * Ldb + k)) s)"
      using "1.prems" by (intro PrepackSlice_commit) simp_all
    have "Prepack_tail_chunks Ldb n (k + 8) (commit (slice_events (n * Ldb + k)) s) =
            Some (commit (concat (map (\<lambda>k. slice_events (n * Ldb + k)) (offsets (k + 8) Ldb)))
                   (commit (slice_events (n * Ldb + k)) s))"
      using True step fits j "1.prems" by (intro "1.IH") simp_all
    with True step fits j show ?thesis
      by (simp add: Prepack_tail_chunks.simps [of Ldb n k] offsets.simps [of k] commit_commit)
  qed
qed

lemma Prepack_tail_commit:
  assumes "8 dvd Ldb" "Ldb \<le> INT_MAX \<or> N \<le> n" "N * Ldb \<le> length (src_buf s)"
    "N * Ldb \<le> length (dst_buf s)"
    "length (src_buf s) < 2 ^ 64" "length (dst_buf s) < 2 ^ 64" "N < 2 ^ 64"
  shows "Prepack_tail Ldb N n s =
           Some (commit (concat (map (tail_column_events Ldb) [n..<N])) s)"
  using assms
proof (induction "N - n" arbitrary: n s rule: less_induct)
  case less
  show ?case
  proof (cases "n < N")
    case False
    then show ?thesis
      by (simp add: Prepack_tail.simps [of Ldb N n])
  next
    case True
    with less.prems have next_n: "wrap64 (n + 1) = n + 1"
      by (intro wrap64_id) linarith
    from True have "(n + 1) * Ldb \<le> N * Ldb"
      by (intro mult_le_mono1) simp
    then have "(n + 1) * Ldb \<le> length (src_buf s)" "(n + 1) * Ldb \<le> length (dst_buf s)"
      using less.prems by linarith+
    then have step: "Prepack_tail_chunks Ldb n 0 s = Some (commit (tail_column_events Ldb n) s)"
      unfolding tail_column_events_def using True less.prems
      by (intro Prepack_tail_chunks_commit) simp_all
    have "Prepack_tail Ldb N (n + 1) (commit (tail_column_events Ldb n) s) =
            Some (commit (concat (map (tail_column_events Ldb) [n + 1..<N]))
                   (commit (tail_column_events Ldb n) s))"
      using True less.prems by (intro less.hyps) simp_all
    with True step next_n show ?thesis
      by (simp add: Prepack_tail.simps [of Ldb N n] upt_conv_Cons commit_commit)
  qed
qed

lemma tiles_end_0: "tiles_end 0 N = 8 * (N div 8)"
proof -
  have "8 dvd n \<Longrightarrow> n \<le> N \<Longrightarrow> tiles_end n N = 8 * (N div 8)" for n
  proof (induction n N rule: tiles_end.induct)
    case (1 n N)
    show ?case
    proof (cases "n + 8 \<le> N")
      case True
      with 1 show ?thesis by (simp add: tiles_end.simps [of n N])
    next
      case False
      then have "tiles_end n N = n"
        by (simp add: tiles_end.simps [of n N])
      moreover from False "1.prems" have "n = 8 * (N div 8)"
        by (auto simp: dvd_def)
      ultimately show ?thesis by simp
    qed
  qed
  then show ?thesis by simp
qed

lemma Prepack_commit:
  assumes "8 dvd Ldb" "Ldb \<le> INT_MAX \<or> 8 dvd N" "N * Ldb \<le> length (src_buf s)"
    "N * Ldb \<le> length (dst_buf s)"
    "length (src_buf s) < 2 ^ 64" "length (dst_buf s) < 2 ^ 64" "N + 8 < 2 ^ 64"
  shows "Prepack Ldb N s = Some (commit (Prepack_events Ldb N) s)"
proof -
  have tiles: "Prepack_tiles Ldb N 0 s =
      Some (tiles_end 0 N, commit (concat (map (tile_column_events Ldb) (tile_starts 0 N))) s)"
    using assms by (intro Prepack_tiles_commit) simp_all
  have "Ldb \<le> INT_MAX \<or> N \<le> tiles_end 0 N"
    using assms(2) by (auto simp: tiles_end_0)
  moreover have "N < 2 ^ 64"
    using assms(7) by linarith
  ultimately have "Prepack_tail Ldb N (tiles_end 0 N)
               (commit (concat (map (tile_column_events Ldb) (tile_starts 0 N))) s) =
      Some (commit (concat (map (tail_column_events Ldb) [tiles_end 0 N..<N]))
             (commit (concat (map (tile_column_events Ldb) (tile_starts 0 N))) s))"
    using assms by (intro Prepack_tail_commit) simp_all
  with tiles show ?thesis
    by (simp add: Prepack_def Prepack_events_def commit_commit)
qed

lemma columns_fit:
  fixes Ldb N :: nat
  assumes "8 dvd Ldb" "0 < Ldb" "N * Ldb < 2 ^ 64"
  shows "N + 8 < 2 ^ 64"
proof -
  have "8 \<le> Ldb"
    using assms(1,2) by (auto dest: dvd_imp_le)
  then have "N * 8 \<le> N * Ldb"
    by (rule mult_le_mono2)
  with assms(3) have "N * 8 < 2 ^ 64"
    by linarith
  then show ?thesis
    by simp
qed

section \<open>The events of a run\<close>

lemma upt_8: "[0..<8] = [0, 1, 2, 3, 4, 5, 6, 7]"
  by (simp add: upt_rec)

lemma set_offsets:
  "8 dvd k \<Longrightarrow> set (offsets k Ldb) = {x. k \<le> x \<and> x < Ldb \<and> 8 dvd x}"
proof (induction k Ldb rule: offsets.induct)
  case (1 k Ldb)
  show ?case
  proof (cases "k < Ldb")
    case False
    then show ?thesis by (auto simp: offsets.simps [of k])
  next
    case True
    have "{x. k \<le> x \<and> x < Ldb \<and> 8 dvd x} = insert k {x. k + 8 \<le> x \<and> x < Ldb \<and> 8 dvd x}"
      using True "1.prems" by (auto simp: dvd_def)
    with True 1 show ?thesis
      by (simp add: offsets.simps [of k])
  qed
qed

lemma set_tile_starts:
  "8 dvd n \<Longrightarrow> set (tile_starts n N) = {x. n \<le> x \<and> x + 8 \<le> N \<and> 8 dvd x}"
proof (induction n N rule: tile_starts.induct)
  case (1 n N)
  show ?case
  proof (cases "n + 8 \<le> N")
    case False
    then show ?thesis by (auto simp: tile_starts.simps [of n])
  next
    case True
    have "{x. n \<le> x \<and> x + 8 \<le> N \<and> 8 dvd x} = insert n {x. n + 8 \<le> x \<and> x + 8 \<le> N \<and> 8 dvd x}"
      using True "1.prems" by (auto simp: dvd_def)
    with True 1 show ?thesis
      by (simp add: tile_starts.simps [of n])
  qed
qed

lemma set_tile_events:
  "set (tile_events Ldb n k) =
     {Transposed ((n + c) * Ldb + r + k) (n * Ldb + (r + k) * 8 + c) | c r. c < 8 \<and> r < 8}"
  by (fastforce simp: tile_events_def)

lemma set_slice_events:
  "set (slice_events j) = {Regrouped (j + i div 2) (j + (8 + i) div 2) i (j + i) | i. i < 8}"
  by (fastforce simp: slice_events_def)

lemma set_Prepack_events:
  "set (Prepack_events Ldb N) =
     {Transposed ((n + c) * Ldb + r + k) (n * Ldb + (r + k) * 8 + c) | n k c r.
        8 dvd n \<and> n + 8 \<le> N \<and> 8 dvd k \<and> k < Ldb \<and> c < 8 \<and> r < 8} \<union>
     {Regrouped (n * Ldb + k + i div 2) (n * Ldb + k + (8 + i) div 2) i (n * Ldb + k + i) | n k i.
        8 * (N div 8) \<le> n \<and> n < N \<and> 8 dvd k \<and> k < Ldb \<and> i < 8}"
  unfolding Prepack_events_def tile_column_events_def tail_column_events_def
  by (auto simp: set_offsets set_tile_starts set_tile_events set_slice_events tiles_end_0)

section \<open>Destination indices written\<close>

lemma mset_concat_rows_Cons:
  "mset (concat (map (\<lambda>r. f x r # map (\<lambda>c. f c r) xs) ys)) =
     mset (map (f x) ys) + mset (concat (map (\<lambda>r. map (\<lambda>c. f c r) xs) ys))"
  by (induction ys) simp_all

lemma mset_concat_swap:
  "mset (concat (map (\<lambda>c. map (\<lambda>r. f c r) ys) xs)) =
     mset (concat (map (\<lambda>r. map (\<lambda>c. f c r) xs) ys))"
proof (induction xs)
  case Nil
  show ?case by (induction ys) simp_all
next
  case (Cons x xs)
  then show ?case by (simp add: mset_concat_rows_Cons)
qed

lemma concat_rows_upt: "concat (map (\<lambda>r. [a + 8 * r..<a + 8 * r + 8]) [0..<m]) = [a..<a + 8 * m]"
proof (induction m)
  case 0
  show ?case by simp
next
  case (Suc m)
  have eq: "a + 8 * Suc m = a + 8 * m + 8"
    by simp
  have "[a..<a + 8 * m + 8] = [a..<a + 8 * m] @ [a + 8 * m..<a + 8 * m + 8]"
    by (rule upt_add_eq_append) simp
  then have "[a..<a + 8 * Suc m] = [a..<a + 8 * m] @ [a + 8 * m..<a + 8 * m + 8]"
    unfolding eq .
  with Suc show ?case by simp
qed

lemma row_upt: "map (\<lambda>c. x + c) [0..<8] = [x..<x + 8]"
  using map_add_upt [of x 8] by (simp add: add.commute)

lemma mset_set_upt_append:
  "a \<le> b \<Longrightarrow> b \<le> c \<Longrightarrow> mset_set {a..<b} + mset_set {b..<c} = mset_set {a..<c::nat}"
  using upt_add_eq_append [of a b "c - b"]
  by (metis le_add_diff_inverse mset_append mset_upt)

lemma stores_tile_events:
  "image_mset store_of (mset (tile_events Ldb n k)) =
     mset_set {n * Ldb + 8 * k..<n * Ldb + 8 * k + 64}"
proof -
  have "map store_of (tile_events Ldb n k) =
          concat (map (\<lambda>c. map (\<lambda>r. n * Ldb + 8 * k + 8 * r + c) [0..<8]) [0..<8])"
    by (simp add: tile_events_def map_concat comp_def algebra_simps)
  also have "mset \<dots> =
          mset (concat (map (\<lambda>r. map (\<lambda>c. n * Ldb + 8 * k + 8 * r + c) [0..<8]) [0..<8]))"
    by (rule mset_concat_swap)
  also have "concat (map (\<lambda>r. map (\<lambda>c. n * Ldb + 8 * k + 8 * r + c) [0..<8]) [0..<8]) =
          [n * Ldb + 8 * k..<n * Ldb + 8 * k + 8 * 8]"
    by (simp only: row_upt concat_rows_upt)
  finally show ?thesis by simp
qed

lemma stores_slice_events: "map store_of (slice_events j) = [j..<j + 8]"
  by (simp add: slice_events_def map_concat comp_def row_upt)

lemma stores_tile_chunks:
  assumes "8 dvd k" "8 dvd Ldb" "k \<le> Ldb"
  shows "image_mset store_of (mset (concat (map (tile_events Ldb n) (offsets k Ldb)))) =
           mset_set {n * Ldb + 8 * k..<n * Ldb + 8 * Ldb}"
  using assms
proof (induction k Ldb rule: offsets.induct)
  case (1 k Ldb)
  show ?case
  proof (cases "k < Ldb")
    case False
    then have "offsets k Ldb = []"
      by (simp add: offsets.simps [of k])
    with False "1.prems" show ?thesis by simp
  next
    case True
    with "1.prems" have k8: "k + 8 \<le> Ldb"
      by (auto simp: dvd_def)
    have IH: "image_mset store_of (mset (concat (map (tile_events Ldb n) (offsets (k + 8) Ldb)))) =
           mset_set {n * Ldb + 8 * (k + 8)..<n * Ldb + 8 * Ldb}"
      using True k8 "1.prems" by (intro "1.IH") simp_all
    have "mset_set {n * Ldb + 8 * k..<n * Ldb + 8 * k + 64} +
          mset_set {n * Ldb + 8 * k + 64..<n * Ldb + 8 * Ldb} =
          mset_set {n * Ldb + 8 * k..<n * Ldb + 8 * Ldb}"
      using k8 by (intro mset_set_upt_append) simp_all
    moreover have "n * Ldb + 8 * (k + 8) = n * Ldb + 8 * k + 64"
      by simp
    moreover have "offsets k Ldb = k # offsets (k + 8) Ldb"
      using True by (simp add: offsets.simps [of k])
    ultimately show ?thesis
      using IH by (simp add: stores_tile_events add.assoc)
  qed
qed

lemma stores_tile_column:
  "8 dvd Ldb \<Longrightarrow>
     image_mset store_of (mset (tile_column_events Ldb n)) = mset_set {n * Ldb..<(n + 8) * Ldb}"
  using stores_tile_chunks [of 0 Ldb n] by (simp add: tile_column_events_def algebra_simps)

lemma stores_tiles:
  assumes "8 dvd Ldb"
  shows "image_mset store_of (mset (concat (map (tile_column_events Ldb) (tile_starts n N)))) =
           mset_set {n * Ldb..<tiles_end n N * Ldb}"
proof (induction n N rule: tile_starts.induct)
  case (1 n N)
  show ?case
  proof (cases "n + 8 \<le> N")
    case False
    then show ?thesis
      by (simp add: tile_starts.simps [of n] tiles_end.simps [of n])
  next
    case True
    have "n + 8 \<le> tiles_end (n + 8) N"
      by (rule tiles_end_ge)
    then have "(n + 8) * Ldb \<le> tiles_end (n + 8) N * Ldb"
      by (rule mult_le_mono1)
    then have "mset_set {n * Ldb..<(n + 8) * Ldb} +
          mset_set {(n + 8) * Ldb..<tiles_end (n + 8) N * Ldb} =
          mset_set {n * Ldb..<tiles_end (n + 8) N * Ldb}"
      by (intro mset_set_upt_append) simp_all
    with True "1.IH" assms show ?thesis
      by (simp add: tile_starts.simps [of n] tiles_end.simps [of n] stores_tile_column)
  qed
qed

lemma stores_tail_chunks:
  assumes "8 dvd k" "8 dvd Ldb" "k \<le> Ldb"
  shows "map store_of (concat (map (\<lambda>k. slice_events (n * Ldb + k)) (offsets k Ldb))) =
           [n * Ldb + k..<n * Ldb + Ldb]"
  using assms
proof (induction k Ldb rule: offsets.induct)
  case (1 k Ldb)
  show ?case
  proof (cases "k < Ldb")
    case False
    then have "offsets k Ldb = []"
      by (simp add: offsets.simps [of k])
    with False "1.prems" show ?thesis by simp
  next
    case True
    with "1.prems" have k8: "k + 8 \<le> Ldb"
      by (auto simp: dvd_def)
    have IH: "map store_of (concat (map (\<lambda>k. slice_events (n * Ldb + k)) (offsets (k + 8) Ldb))) =
           [n * Ldb + (k + 8)..<n * Ldb + Ldb]"
      using True k8 "1.prems" by (intro "1.IH") simp_all
    have "[n * Ldb + k..<n * Ldb + k + 8 + (Ldb - (k + 8))] =
          [n * Ldb + k..<n * Ldb + k + 8] @ [n * Ldb + k + 8..<n * Ldb + k + 8 + (Ldb - (k + 8))]"
      by (intro upt_add_eq_append) simp
    moreover have "n * Ldb + k + 8 + (Ldb - (k + 8)) = n * Ldb + Ldb"
      using k8 by simp
    moreover have "offsets k Ldb = k # offsets (k + 8) Ldb"
      using True by (simp add: offsets.simps [of k])
    ultimately show ?thesis
      using IH by (simp add: stores_slice_events add.assoc)
  qed
qed

lemma stores_tail_column:
  "8 dvd Ldb \<Longrightarrow> map store_of (tail_column_events Ldb n) = [n * Ldb..<n * Ldb + Ldb]"
  using stores_tail_chunks [of 0 Ldb n] by (simp add: tail_column_events_def)

lemma stores_tail:
  assumes "8 dvd Ldb" "n \<le> N"
  shows "map store_of (concat (map (tail_column_events Ldb) [n..<N])) = [n * Ldb..<N * Ldb]"
  using assms(2)
proof (induction N)
  case 0
  then show ?case by simp
next
  case (Suc N)
  show ?case
  proof (cases "n = Suc N")
    case True
    then show ?thesis by simp
  next
    case False
    with Suc.prems have le: "n \<le> N" by simp
    then have "n * Ldb \<le> N * Ldb"
      by (rule mult_le_mono1)
    then have "[n * Ldb..<N * Ldb + Ldb] = [n * Ldb..<N * Ldb] @ [N * Ldb..<N * Ldb + Ldb]"
      by (rule upt_add_eq_append)
    with le Suc.IH assms(1) show ?thesis
      by (simp add: stores_tail_column add.commute)
  qed
qed

lemma stores_Prepack_events:
  assumes "8 dvd Ldb"
  shows "image_mset store_of (mset (Prepack_events Ldb N)) = mset_set {0..<N * Ldb}"
proof -
  have le: "tiles_end 0 N \<le> N"
    by (rule tiles_end_le) simp
  then have "tiles_end 0 N * Ldb \<le> N * Ldb"
    by (rule mult_le_mono1)
  then have "mset_set {0..<tiles_end 0 N * Ldb} + mset_set {tiles_end 0 N * Ldb..<N * Ldb} =
        mset_set {0..<N * Ldb}"
    by (intro mset_set_upt_append) simp_all
  moreover have "image_mset store_of (mset (concat (map (tail_column_events Ldb) [tiles_end 0 N..<N]))) =
        mset_set {tiles_end 0 N * Ldb..<N * Ldb}"
    using stores_tail [OF assms le] by (metis mset_map mset_upt)
  ultimately show ?thesis
    using stores_tiles [OF assms, of 0 N]
    by (simp add: Prepack_events_def)
qed

lemma distinct_stores_Prepack_events:
  assumes "8 dvd Ldb"
  shows "distinct (map store_of (Prepack_events Ldb N))"
    and "set (map store_of (Prepack_events Ldb N)) = {0..<N * Ldb}"
proof -
  have eq: "mset (map store_of (Prepack_events Ldb N)) = mset [0..<N * Ldb]"
    using stores_Prepack_events [OF assms, of N] by simp
  show "distinct (map store_of (Prepack_events Ldb N))"
    using eq by (metis distinct_upt mset_eq_imp_distinct_iff)
  show "set (map store_of (Prepack_events Ldb N)) = {0..<N * Ldb}"
    using eq by (metis mset_eq_setD set_upt)
qed

section \<open>Contents of the destination\<close>

lemma replay_Cons: "replay src (e # J) d = replay src J (d[store_of e := value_of src e])"
  by (simp add: replay_def)

lemma replay_untouched:
  "j \<notin> store_of ` set J \<Longrightarrow> replay src J d ! j = d ! j"
  by (induction J arbitrary: d) (simp_all add: replay_def)

lemma replay_nth:
  "distinct (map store_of J) \<Longrightarrow> e \<in> set J \<Longrightarrow> store_of e < length d \<Longrightarrow>
     replay src J d ! store_of e = value_of src e"
proof (induction J arbitrary: d)
  case Nil
  then show ?case by simp
next
  case (Cons x J)
  show ?case
  proof (cases "e = x")
    case True
    with Cons.prems have "store_of e \<notin> store_of ` set J"
      by auto
    then have "replay src J (d[store_of x := value_of src x]) ! store_of e =
                 d[store_of x := value_of src x] ! store_of e"
      by (rule replay_untouched)
    with True Cons.prems show ?thesis
      by (simp add: replay_Cons)
  next
    case False
    with Cons.prems have "e \<in> set J" "distinct (map store_of J)"
      by auto
    then have "replay src J (d[store_of x := value_of src x]) ! store_of e = value_of src e"
      using Cons.prems by (intro Cons.IH) simp_all
    then show ?thesis
      by (simp add: replay_Cons)
  qed
qed

lemma dst_after_Prepack:
  assumes "8 dvd Ldb" "length (dst_buf s) = N * Ldb" "e \<in> set (Prepack_events Ldb N)"
  shows "dst_buf (commit (Prepack_events Ldb N) s) ! store_of e = value_of (src_buf s) e"
proof -
  have "store_of e \<in> set (map store_of (Prepack_events Ldb N))"
    using assms(3) by simp
  then have "store_of e < N * Ldb"
    unfolding distinct_stores_Prepack_events(2) [OF assms(1)] by simp
  then show ?thesis
    using assms distinct_stores_Prepack_events(1) [OF assms(1), of N]
    by (simp add: commit_def replay_nth)
qed

text \<open>
  The tile loop starts its tiles at the multiples of 8 only. With 9 columns of stride 8
  the group of 8 columns that starts at column 1 is not a tile: the output byte at index
  \<open>1 * Ldb + (0 + 0) * 8 + 0\<close> is the source byte at index 1, not the one at index
  \<open>(1 + 0) * Ldb + (0 + 0)\<close>. And with a block length of 8 the stride of \<open>K = 1\<close> is 4, not
  a multiple of 8: the transposition of the only tile of an 8-column matrix leaves the
  buffers of \<open>8 * 4\<close> bytes, and the run has no defined result.
\<close>

theorem transpose_tile_bytes_counterexample:
  "TestPrepack_ref 9 16 16 (map of_nat [0..<72]) \<noteq> None \<and>
   dst_of (TestPrepack_ref 9 16 16 (map of_nat [0..<72])) ! (1 * unat (Ldb_of 16 16) + (0 + 0) * 8 + 0) = 1 \<and>
   map of_nat [0..<72] ! ((1 + 0) * unat (Ldb_of 16 16) + (0 + 0)) = (8 :: byte) \<and>
   TestPrepack_ref 8 1 8 (replicate (unat (BufferSize 8 1 8)) 0) = None"
proof -
  have L: "Ldb_of 16 16 = 8" "Ldb_of 1 8 = 4"
    by (simp_all add: Ldb_of_def Bits_def)
  have "map_option (\<lambda>s. dst_buf s ! 8)
      (Prepack 8 9 \<lparr>src_buf = map of_nat [0..<72], dst_buf = replicate 72 0, journal = []\<rparr>) =
      Some 1"
    by code_simp
  moreover have "Prepack 4 8 \<lparr>src_buf = replicate 32 0, dst_buf = replicate 32 0, journal = []\<rparr> =
      None"
    by code_simp
  moreover have "map of_nat [0..<72] ! 8 = (8 :: byte)"
    by code_simp
  ultimately show ?thesis
    by (auto simp: TestPrepack_ref_def BufferSize_def L dst_of_def)
qed

text \<open>
  Claim C2. In a run of the packer on buffers of \<open>N * Ldb\<close> bytes (\<open>N * Ldb\<close> below \<open>2^64\<close>,
  the stride a multiple of 8, within \<^verbatim>\<open>INT_MAX\<close> unless \<open>N\<close> is a multiple of 8), for every
  tile of 8 columns starting at a column \<open>n\<close> the tile loop visits (\<open>n\<close> a multiple of 8
  with \<open>n + 8 \<le> N\<close>) and every 8-byte-aligned chunk offset \<open>k < Ldb\<close>, the output byte at
  index \<open>n * Ldb + (r + k) * 8 + c\<close> is the source byte at index \<open>(n + c) * Ldb + (r + k)\<close>,
  for all \<open>r, c < 8\<close>: the byte is moved whole.
\<close>

theorem transpose_tile_bytes:
  assumes "8 dvd Ldb" "Ldb \<le> INT_MAX \<or> 8 dvd N"
    and "length (src_buf s) = N * Ldb" "length (dst_buf s) = N * Ldb" "N * Ldb < 2 ^ 64"
    and "8 dvd n" "n + 8 \<le> N" "8 dvd k" "k < Ldb" "r < 8" "c < 8"
  shows "\<exists>s'. Prepack Ldb N s = Some s' \<and>
           dst_buf s' ! (n * Ldb + (r + k) * 8 + c) = src_buf s ! ((n + c) * Ldb + (r + k))"
proof -
  let ?e = "Transposed ((n + c) * Ldb + r + k) (n * Ldb + (r + k) * 8 + c)"
  have "N + 8 < 2 ^ 64"
    using assms by (intro columns_fit [of Ldb]) simp_all
  then have run: "Prepack Ldb N s = Some (commit (Prepack_events Ldb N) s)"
    using assms by (intro Prepack_commit) simp_all
  have "?e \<in> set (Prepack_events Ldb N)"
    unfolding set_Prepack_events using assms by blast
  then have "dst_buf (commit (Prepack_events Ldb N) s) ! store_of ?e = value_of (src_buf s) ?e"
    using assms by (intro dst_after_Prepack) simp_all
  with run show ?thesis
    by (simp add: add.assoc)
qed

theorem transpose_tile_bytes_witness:
  "\<exists>s'. Prepack 8 8 \<lparr>src_buf = map of_nat [0..<64], dst_buf = replicate 64 0, journal = []\<rparr> = Some s' \<and>
        dst_buf s' ! 10 = 17"
  using transpose_tile_bytes [of 8 8 "\<lparr>src_buf = map of_nat [0..<64], dst_buf = replicate 64 0, journal = []\<rparr>" 0 0 1 2]
  by (simp add: INT_MAX_def)

section \<open>Nibbles\<close>

lemma GetInt4_parity: "GetInt4 v i = (if even i then v AND 0x0f else drop_bit 4 v)"
  by (simp add: GetInt4_def and_one_eq mod_2_eq_odd)

lemma nibble_low: "(v AND 0x0f) AND 0x0f = (v :: byte) AND 0x0f"
  by (simp add: and.assoc)

lemma byte_low_nibble:
  fixes v0 v1 :: byte
  shows "(v0 OR push_bit 4 v1) AND 0x0f = v0 AND 0x0f"
proof -
  have m: "(0x0f :: byte) = mask 4"
    by (simp add: mask_eq_exp_minus_1)
  show ?thesis
    unfolding m by (rule bit_word_eqI) (auto simp: bit_simps)
qed

lemma byte_high_nibble:
  fixes v1 :: byte
  shows "drop_bit 4 (push_bit 4 v1) = v1 AND 0x0f"
proof -
  have m: "(0x0f :: byte) = mask 4"
    by (simp add: mask_eq_exp_minus_1)
  show ?thesis
    unfolding m by (rule bit_word_eqI) (auto simp: bit_simps)
qed

lemma drop_low: "drop_bit 4 ((v :: byte) AND 0x0f) = 0"
proof -
  have m: "(0x0f :: byte) = mask 4"
    by (simp add: mask_eq_exp_minus_1)
  show ?thesis
    unfolding m by (rule bit_word_eqI) (auto simp: bit_simps)
qed

lemma drop_drop: "drop_bit 4 (drop_bit 4 (v :: byte)) = 0"
  by (rule bit_word_eqI) (auto simp: bit_simps dest: bit_imp_le_length)

lemma high_low: "drop_bit 4 (v :: byte) AND 0x0f = drop_bit 4 v"
proof -
  have m: "(0x0f :: byte) = mask 4"
    by (simp add: mask_eq_exp_minus_1)
  show ?thesis
    unfolding m by (rule bit_word_eqI) (auto simp: bit_simps dest: bit_imp_le_length)
qed

lemma GetInt4_nibble: "GetInt4 v i AND 0x0f = GetInt4 v i" "drop_bit 4 (GetInt4 v i) = 0"
  by (simp_all add: GetInt4_parity nibble_low drop_low drop_drop high_low)

lemma regroup_low: "(GetInt4 x i OR push_bit 4 (GetInt4 y e)) AND 0x0f = GetInt4 x i"
  by (simp add: byte_low_nibble GetInt4_nibble)

lemma regroup_high: "drop_bit 4 (GetInt4 x i OR push_bit 4 (GetInt4 y e)) = GetInt4 y e"
  by (simp add: byte_high_nibble GetInt4_nibble)

text \<open>
  With a block length of 8 the stride of \<open>K = 7\<close> is 4. The regroup of a tail column works
  on 8 bytes all the same: in the last of 3 columns it reads beyond the \<open>3 * 4\<close> bytes of
  the source, and the run has no defined result.
\<close>

theorem tail_chunk_regroup_counterexample:
  "TestPrepack_ref 3 7 8 (replicate (unat (BufferSize 3 7 8)) 0) = None"
proof -
  have L: "Ldb_of 7 8 = 4"
    by (simp add: Ldb_of_def Bits_def)
  have "Prepack 4 3 \<lparr>src_buf = replicate 12 0, dst_buf = replicate 12 0, journal = []\<rparr> = None"
    by code_simp
  then show ?thesis
    by (simp add: TestPrepack_ref_def BufferSize_def L)
qed

text \<open>
  Claim C3. In a run of the packer on buffers of \<open>N * Ldb\<close> bytes (\<open>N * Ldb\<close> below \<open>2^64\<close>,
  the stride a multiple of 8 within \<^verbatim>\<open>INT_MAX\<close>), for every tail column \<open>n\<close> (one of the
  last \<open>N mod 8\<close> columns), every 8-byte chunk of it at offset \<open>k\<close> and every \<open>i < 8\<close>, the
  output byte at offset \<open>i\<close> of the chunk holds element \<open>i\<close> of the chunk's 16 elements in
  its low nibble and element \<open>i + 8\<close> in its high nibble.
\<close>

theorem tail_chunk_regroup:
  assumes "8 dvd Ldb" "Ldb \<le> INT_MAX"
    and "length (src_buf s) = N * Ldb" "length (dst_buf s) = N * Ldb" "N * Ldb < 2 ^ 64"
    and "8 * (N div 8) \<le> n" "n < N" "8 dvd k" "k < Ldb" "i < 8"
  shows "\<exists>s'. Prepack Ldb N s = Some s' \<and>
           dst_buf s' ! (n * Ldb + k + i) AND 0x0f = source_element (src_buf s) (n * Ldb + k) i \<and>
           drop_bit 4 (dst_buf s' ! (n * Ldb + k + i)) =
             source_element (src_buf s) (n * Ldb + k) (i + 8)"
proof -
  let ?e = "Regrouped (n * Ldb + k + i div 2) (n * Ldb + k + (8 + i) div 2) i (n * Ldb + k + i)"
  have "N + 8 < 2 ^ 64"
    using assms by (intro columns_fit [of Ldb]) simp_all
  then have run: "Prepack Ldb N s = Some (commit (Prepack_events Ldb N) s)"
    using assms by (intro Prepack_commit) simp_all
  have "?e \<in> set (Prepack_events Ldb N)"
    unfolding set_Prepack_events using assms by blast
  then have "dst_buf (commit (Prepack_events Ldb N) s) ! store_of ?e = value_of (src_buf s) ?e"
    using assms by (intro dst_after_Prepack) simp_all
  then have val: "dst_buf (commit (Prepack_events Ldb N) s) ! (n * Ldb + k + i) =
      GetInt4 (src_buf s ! (n * Ldb + k + i div 2)) i OR
      push_bit 4 (GetInt4 (src_buf s ! (n * Ldb + k + (8 + i) div 2)) (i + 8))"
    by simp
  have lo: "GetInt4 (src_buf s ! (n * Ldb + k + i div 2)) i =
      source_element (src_buf s) (n * Ldb + k) i"
    by (simp add: GetInt4_parity source_element_def)
  have hi: "GetInt4 (src_buf s ! (n * Ldb + k + (8 + i) div 2)) (i + 8) =
      source_element (src_buf s) (n * Ldb + k) (i + 8)"
    by (simp add: GetInt4_parity source_element_def add.commute)
  have "dst_buf (commit (Prepack_events Ldb N) s) ! (n * Ldb + k + i) AND 0x0f =
      source_element (src_buf s) (n * Ldb + k) i"
    unfolding val regroup_low by (rule lo)
  moreover have "drop_bit 4 (dst_buf (commit (Prepack_events Ldb N) s) ! (n * Ldb + k + i)) =
      source_element (src_buf s) (n * Ldb + k) (i + 8)"
    unfolding val regroup_high by (rule hi)
  ultimately show ?thesis
    using run by simp
qed

theorem tail_chunk_regroup_witness:
  "\<exists>s'. Prepack 8 1 \<lparr>src_buf = [0x10, 0x32, 0x54, 0x76, 0x98, 0xBA, 0xDC, 0xFE],
                     dst_buf = replicate 8 0, journal = []\<rparr> = Some s' \<and>
        dst_buf s' ! 3 AND 0x0f = 3 \<and> drop_bit 4 (dst_buf s' ! 3) = 0xB"
  using tail_chunk_regroup [of 8 "\<lparr>src_buf = [0x10, 0x32, 0x54, 0x76, 0x98, 0xBA, 0xDC, 0xFE],
                     dst_buf = replicate 8 0, journal = []\<rparr>" 1 0 0 3]
  by (simp add: INT_MAX_def source_element_def)

section \<open>The stride\<close>

lemma low_bits_zero:
  fixes X :: size_t
  assumes "4 \<le> m"
  shows "take_bit 6 ((X AND NOT (2 ^ m - 1)) * 4) = 0"
proof -
  have "(X AND NOT (2 ^ m - 1)) * 4 = push_bit 2 (X AND NOT (mask m))"
    by (simp add: push_bit_eq_mult mask_eq_exp_minus_1)
  also have "take_bit 6 \<dots> = 0"
    using assms by (intro bit_word_eqI) (auto simp: bit_simps)
  finally show ?thesis .
qed

lemma Ldb_of_multiple_of_8:
  assumes "4 \<le> m"
  shows "8 dvd unat (Ldb_of K (2 ^ m))"
proof -
  define W where "W = ((K + 2 ^ m - 1) AND NOT (2 ^ m - 1)) * (4 :: size_t)"
  have "take_bit 6 W = 0"
    unfolding W_def using assms by (rule low_bits_zero)
  then have "take_bit 6 (unat W) = 0"
    by (metis unsigned_take_bit_eq unsigned_0)
  then have "2 ^ 6 dvd unat W"
    by (simp add: take_bit_eq_0_iff)
  then obtain t where t: "unat W = 64 * t"
    by (auto simp: dvd_def)
  have "unat W < 2 ^ 64"
    using unsigned_less [of W] by simp
  with t have "unat W + 7 < 2 ^ 64"
    by simp
  then have "unat (W + 7) = unat W + 7"
    by (simp add: unat_word_ariths)
  then have "unat ((W + 7) div 8) = 8 * t"
    using t by (simp add: unat_div)
  then show ?thesis
    by (simp add: Ldb_of_def Bits_def W_def)
qed

section \<open>Writes of a run\<close>

lemma Prepack_tail_chunks_overflow:
  assumes "8 dvd k" "8 dvd Ldb" "k < Ldb" "INT_MAX < Ldb" "k \<le> INT_MAX"
    "(n + 1) * Ldb \<le> length (src_buf s)" "(n + 1) * Ldb \<le> length (dst_buf s)"
    "length (src_buf s) < 2 ^ 64" "length (dst_buf s) < 2 ^ 64"
  shows "Prepack_tail_chunks Ldb n k s = None"
  using assms
proof (induction Ldb n k s rule: Prepack_tail_chunks.induct)
  case (1 Ldb n k s)
  from "1.prems"(1-3) have k8: "k + 8 \<le> Ldb"
    by presburger
  have chunk: "n * Ldb + k + 8 \<le> (n + 1) * Ldb"
    using k8 by (simp add: algebra_simps)
  with "1.prems" have j: "wrap64 (n * Ldb + k) = n * Ldb + k"
    by (intro wrap64_id) linarith
  from chunk have step: "PrepackSlice (n * Ldb + k) s = Some (commit (slice_events (n * Ldb + k)) s)"
    using "1.prems" by (intro PrepackSlice_commit) simp_all
  show ?case
  proof (cases "k + 8 \<le> INT_MAX")
    case False
    with step j "1.prems" show ?thesis
      by (simp add: Prepack_tail_chunks.simps [of Ldb n k])
  next
    case True
    with "1.prems" have "k + 8 < Ldb"
      by simp
    then have "Prepack_tail_chunks Ldb n (k + 8) (commit (slice_events (n * Ldb + k)) s) = None"
      using True step j "1.prems" by (intro "1.IH") simp_all
    with True step j "1.prems" show ?thesis
      by (simp add: Prepack_tail_chunks.simps [of Ldb n k])
  qed
qed

lemma Prepack_int_overflow:
  assumes "8 dvd Ldb" "INT_MAX < Ldb" "N < 8" "0 < N"
    "N * Ldb \<le> length (src_buf s)" "N * Ldb \<le> length (dst_buf s)"
    "length (src_buf s) < 2 ^ 64" "length (dst_buf s) < 2 ^ 64"
  shows "Prepack Ldb N s = None"
proof -
  have "Prepack_tiles Ldb N 0 s = Some (0, s)"
    using assms by (simp add: Prepack_tiles.simps [of Ldb N 0])
  moreover have "Ldb \<le> N * Ldb"
    using assms by simp
  then have "Ldb \<le> length (src_buf s)" "Ldb \<le> length (dst_buf s)"
    using assms(5,6) by linarith+
  then have "(0 + 1) * Ldb \<le> length (src_buf s)" "(0 + 1) * Ldb \<le> length (dst_buf s)"
    by simp_all
  then have "Prepack_tail_chunks Ldb 0 0 s = None"
    using assms by (intro Prepack_tail_chunks_overflow) simp_all
  then have "Prepack_tail Ldb N 0 s = None"
    using assms by (simp add: Prepack_tail.simps [of Ldb N 0])
  ultimately show ?thesis
    by (simp add: Prepack_def)
qed

text \<open>
  For a power-of-two block length of at least 16 and buffers of \<open>N * Ldb\<close> bytes, where
  \<open>N + 8\<close> and \<open>N * Ldb\<close> are below \<open>2^64\<close> and the stride does not exceed \<^verbatim>\<open>INT_MAX\<close>
  unless \<open>N\<close> is a multiple of 8, the packer writes
  every destination index in \<open>[0, N * Ldb)\<close> exactly once and no other index, and leaves
  the source buffer as it was.
\<close>

lemma each_destination_written_once:
  assumes "4 \<le> m" "m < 64" "Ldb = unat (Ldb_of K (2 ^ m))"
    and "Ldb \<le> INT_MAX \<or> 8 dvd N"
    and "length (src_buf s) = N * Ldb" "length (dst_buf s) = N * Ldb"
    and "N * Ldb < 2 ^ 64" "N + 8 < 2 ^ 64"
  shows "\<exists>s'. Prepack Ldb N s = Some s' \<and> src_buf s' = src_buf s \<and>
           length (dst_buf s') = N * Ldb \<and>
           (\<exists>J. journal s' = journal s @ J \<and> distinct (map store_of J) \<and>
                set (map store_of J) = {0..<N * Ldb})"
proof -
  have 8: "8 dvd Ldb"
    unfolding assms(3) using assms(1) by (rule Ldb_of_multiple_of_8)
  then have "Prepack Ldb N s = Some (commit (Prepack_events Ldb N) s)"
    using assms by (intro Prepack_commit) simp_all
  then show ?thesis
    using distinct_stores_Prepack_events [OF 8, of N] assms(6) by simp
qed

lemma each_destination_written_once_example:
  "\<exists>s'. Prepack 32 9 \<lparr>src_buf = replicate 288 7, dst_buf = replicate 288 0, journal = []\<rparr> = Some s' \<and>
        src_buf s' = replicate 288 7 \<and> length (dst_buf s') = 288 \<and>
        (\<exists>J. journal s' = J \<and> distinct (map store_of J) \<and> set (map store_of J) = {0..<288})"
proof -
  have L: "unat (Ldb_of 33 32) = 32"
    by (simp add: Ldb_of_def Bits_def)
  show ?thesis
    using each_destination_written_once [of 5 32 33 9
        "\<lparr>src_buf = replicate 288 7, dst_buf = replicate 288 0, journal = []\<rparr>"]
    by (simp add: L INT_MAX_def)
qed

text \<open>
  Claim C9. Under the preconditions \<open>N \<ge> 1\<close>, \<open>K \<ge> 1\<close> and a power-of-two block length
  of at least 16 the packer is to write every destination index in \<open>[0, N * Ldb)\<close> exactly
  once. With \<open>N = 1\<close>, \<open>K = 2^32\<close> and \<open>BlkLen = 16\<close> the stride is \<open>2^31\<close>: the tail loop
  counts the chunks of the column in an \<^verbatim>\<open>int\<close>, which reaches \<open>2^31 - 8\<close>, and its
  increment overflows, so that the run has no defined result. The tile loop counts its
  chunks in a \<^verbatim>\<open>size_t\<close>.
\<close>

theorem tail_chunk_counter_overflows:
  "TestPrepack_ref 1 4294967296 16 (replicate (unat (BufferSize 1 4294967296 16)) 0) = None"
proof -
  have L: "Ldb_of 4294967296 16 = 2147483648"
    by (simp add: Ldb_of_def Bits_def)
  show ?thesis
    unfolding TestPrepack_ref_def BufferSize_def L
    by (rule Prepack_int_overflow) (simp_all add: INT_MAX_def)
qed

section \<open>Ranges of the accesses\<close>

lemma div_eq_column:
  fixes col x Ldb :: nat
  assumes "x < m * Ldb"
  shows "(col * (m * Ldb) + x) div (m * Ldb) = col"
  using assms by (cases "m * Ldb = 0") simp_all

lemma Prepack_events_in_bounds:
  assumes "8 dvd Ldb" "e \<in> set (Prepack_events Ldb N)"
  shows "in_bounds (N * Ldb) (N * Ldb) e"
  using assms(2) unfolding set_Prepack_events
proof (elim UnE CollectE exE conjE)
  fix n k c r
  assume e: "e = Transposed ((n + c) * Ldb + r + k) (n * Ldb + (r + k) * 8 + c)"
    and *: "8 dvd n" "n + 8 \<le> N" "8 dvd k" "k < Ldb" "c < 8" "r < 8"
  from * assms(1) have k8: "k + 8 \<le> Ldb"
    by presburger
  have le: "(n + 8) * Ldb \<le> N * Ldb"
    using * by (intro mult_le_mono1)
  have "(n + c) * Ldb + (r + k) < (n + 8) * Ldb"
    using * k8 by (intro column_bound) simp_all
  with le have rd: "(n + c) * Ldb + r + k < N * Ldb"
    by linarith
  have "n * Ldb + (r + k) * 8 + c < n * Ldb + 8 * Ldb"
    using * k8 by simp
  then have "n * Ldb + (r + k) * 8 + c < (n + 8) * Ldb"
    by (simp add: algebra_simps)
  with le have wr: "n * Ldb + (r + k) * 8 + c < N * Ldb"
    by linarith
  show ?thesis
    unfolding e in_bounds_def using rd wr by simp
next
  fix n k i
  assume e: "e = Regrouped (n * Ldb + k + i div 2) (n * Ldb + k + (8 + i) div 2) i (n * Ldb + k + i)"
    and *: "8 * (N div 8) \<le> n" "n < N" "8 dvd k" "k < Ldb" "i < 8"
  from * assms(1) have k8: "k + 8 \<le> Ldb"
    by presburger
  have le: "(n + 1) * Ldb \<le> N * Ldb"
    using * by (intro mult_le_mono1) simp
  have "n * Ldb + (k + 8) \<le> (n + 1) * Ldb"
    using k8 by (simp add: algebra_simps)
  with le have "n * Ldb + (k + 8) \<le> N * Ldb"
    by linarith
  then show ?thesis
    using * by (auto simp: e in_bounds_def)
qed

lemma Prepack_events_within_range:
  assumes "8 dvd Ldb" "e \<in> set (Prepack_events Ldb N)"
  shows "within_range Ldb e"
  using assms(2) unfolding set_Prepack_events
proof (elim UnE CollectE exE conjE)
  fix n k c r
  assume e: "e = Transposed ((n + c) * Ldb + r + k) (n * Ldb + (r + k) * 8 + c)"
    and *: "8 dvd n" "n + 8 \<le> N" "8 dvd k" "k < Ldb" "c < 8" "r < 8"
  from * assms(1) have k8: "k + 8 \<le> Ldb"
    by presburger
  from * obtain t where n: "n = 8 * t"
    by (auto simp: dvd_def)
  have "c * Ldb + (r + k) < 8 * Ldb"
    using column_bound [of c 8 "r + k" Ldb 0] * k8 by simp
  then have "(t * (8 * Ldb) + (c * Ldb + (r + k))) div (8 * Ldb) = t"
    by (rule div_eq_column)
  moreover have "(r + k) * 8 + c < 8 * Ldb"
    using * k8 by simp
  then have "(t * (8 * Ldb) + ((r + k) * 8 + c)) div (8 * Ldb) = t"
    by (rule div_eq_column)
  ultimately show ?thesis
    by (simp add: e n algebra_simps)
next
  fix n k i
  assume e: "e = Regrouped (n * Ldb + k + i div 2) (n * Ldb + k + (8 + i) div 2) i (n * Ldb + k + i)"
    and *: "8 * (N div 8) \<le> n" "n < N" "8 dvd k" "k < Ldb" "i < 8"
  from * assms(1) have k8: "k + 8 \<le> Ldb"
    by presburger
  have col: "(n * (1 * Ldb) + x) div (1 * Ldb) = n" if "x < 1 * Ldb" for x
    using that by (rule div_eq_column)
  have "(n * Ldb + (k + i div 2)) div Ldb = n" "(n * Ldb + (k + (8 + i) div 2)) div Ldb = n"
    "(n * Ldb + (k + i)) div Ldb = n"
    using col [of "k + i div 2"] col [of "k + (8 + i) div 2"] col [of "k + i"] * k8 by simp_all
  moreover have "i div 2 < 8" "(8 + i) div 2 < 8"
    using * by linarith+
  ultimately show ?thesis
    by (simp add: e add.assoc)
qed

lemma Transposed_in_Prepack_events:
  "8 dvd n \<Longrightarrow> n + 8 \<le> N \<Longrightarrow> 8 dvd k \<Longrightarrow> k < Ldb \<Longrightarrow> c < 8 \<Longrightarrow> r < 8 \<Longrightarrow>
     Transposed ((n + c) * Ldb + r + k) (n * Ldb + (r + k) * 8 + c) \<in> set (Prepack_events Ldb N)"
  unfolding set_Prepack_events by blast

lemma Regrouped_in_Prepack_events:
  "8 * (N div 8) \<le> n \<Longrightarrow> n < N \<Longrightarrow> 8 dvd k \<Longrightarrow> k < Ldb \<Longrightarrow> i < 8 \<Longrightarrow>
     Regrouped (n * Ldb + k + i div 2) (n * Ldb + k + (8 + i) div 2) i (n * Ldb + k + i)
       \<in> set (Prepack_events Ldb N)"
  unfolding set_Prepack_events by blast

text \<open>
  In the first tile of an 8-column matrix with stride 8, the byte read at index 1
  (column 0) is written to index 8, which lies in the byte range of column 1.
\<close>

theorem accesses_within_column_counterexample:
  "TestPrepack_ref 8 16 16 (replicate 64 0) \<noteq> None \<and>
   Transposed 1 8 \<in> set (journal_of (TestPrepack_ref 8 16 16 (replicate 64 0))) \<and>
   \<not> within_one_column (unat (Ldb_of 16 16)) (Transposed 1 8)"
proof -
  have L: "Ldb_of 16 16 = 8"
    by (simp add: Ldb_of_def Bits_def)
  have "Prepack 8 8 \<lparr>src_buf = replicate 64 0, dst_buf = replicate 64 0, journal = []\<rparr> =
      Some (commit (Prepack_events 8 8) \<lparr>src_buf = replicate 64 0, dst_buf = replicate 64 0, journal = []\<rparr>)"
    by (rule Prepack_commit) simp_all
  then have run: "TestPrepack_ref 8 16 16 (replicate 64 0) =
      Some (commit (Prepack_events 8 8) \<lparr>src_buf = replicate 64 0, dst_buf = replicate 64 0, journal = []\<rparr>)"
    by (simp add: TestPrepack_ref_def BufferSize_def L)
  have "Transposed 1 8 \<in> set (Prepack_events 8 8)"
    using Transposed_in_Prepack_events [of 0 8 0 8 0 1] by simp
  with run show ?thesis
    by (simp add: journal_of_def L)
qed

text \<open>
  Claim C10. For every \<open>K\<close> and every power-of-two block length of at least 16 the
  stride is a multiple of 8; on buffers of \<open>N * Ldb\<close> bytes (\<open>N + 8\<close> and \<open>N * Ldb\<close> below
  \<open>2^64\<close>, stride within \<^verbatim>\<open>INT_MAX\<close> unless \<open>N\<close> is a multiple of 8) the run is defined,
  every index read or written is
  below \<open>N * Ldb\<close>, the regroup path reads and writes within the current column and
  within the 8 bytes of its chunk, and the transpose path reads and writes within the
  byte range of the current tile of 8 columns.
\<close>

theorem accesses_stay_in_range:
  assumes "4 \<le> m" "m < 64" "Ldb = unat (Ldb_of K (2 ^ m))"
    and "Ldb \<le> INT_MAX \<or> 8 dvd N"
    and "length (src_buf s) = N * Ldb" "length (dst_buf s) = N * Ldb"
    and "N * Ldb < 2 ^ 64" "N + 8 < 2 ^ 64"
  shows "8 dvd Ldb \<and>
         (\<exists>s'. Prepack Ldb N s = Some s' \<and>
            (\<exists>J. journal s' = journal s @ J \<and>
                 (\<forall>e \<in> set J. in_bounds (N * Ldb) (N * Ldb) e \<and> within_range Ldb e)))"
proof -
  have 8: "8 dvd Ldb"
    unfolding assms(3) using assms(1) by (rule Ldb_of_multiple_of_8)
  then have "Prepack Ldb N s = Some (commit (Prepack_events Ldb N) s)"
    using assms by (intro Prepack_commit) simp_all
  then show ?thesis
    using 8 Prepack_events_in_bounds [OF 8] Prepack_events_within_range [OF 8] by auto
qed

theorem accesses_stay_in_range_witness:
  "8 dvd (8::nat) \<and>
   (\<exists>s'. Prepack 8 9 \<lparr>src_buf = replicate 72 1, dst_buf = replicate 72 0, journal = []\<rparr> = Some s' \<and>
      (\<exists>J. journal s' = J \<and> (\<forall>e \<in> set J. in_bounds 72 72 e \<and> within_range 8 e)))"
proof -
  have L: "unat (Ldb_of 1 16) = 8"
    by (simp add: Ldb_of_def Bits_def)
  show ?thesis
    using accesses_stay_in_range [of 4 8 1 9
        "\<lparr>src_buf = replicate 72 1, dst_buf = replicate 72 0, journal = []\<rparr>"]
    by (simp add: L INT_MAX_def)
qed

section \<open>Tiles and tail columns\<close>

lemma Prepack_events_parts: "Prepack_events Ldb N = tiles_part Ldb N @ tail_part Ldb N"
  by (simp add: Prepack_events_def tiles_part_def tail_part_def)

lemma set_tiles_part:
  "set (tiles_part Ldb N) =
     {Transposed ((n + c) * Ldb + r + k) (n * Ldb + (r + k) * 8 + c) | n k c r.
        8 dvd n \<and> n + 8 \<le> N \<and> 8 dvd k \<and> k < Ldb \<and> c < 8 \<and> r < 8}"
  unfolding tiles_part_def tile_column_events_def
  by (auto simp: set_offsets set_tile_starts set_tile_events)

lemma set_tail_part:
  "set (tail_part Ldb N) =
     {Regrouped (n * Ldb + k + i div 2) (n * Ldb + k + (8 + i) div 2) i (n * Ldb + k + i) | n k i.
        8 * (N div 8) \<le> n \<and> n < N \<and> 8 dvd k \<and> k < Ldb \<and> i < 8}"
  unfolding tail_part_def tail_column_events_def
  by (auto simp: set_offsets set_slice_events tiles_end_0) blast+

lemma chunk_fits: "8 dvd k \<Longrightarrow> 8 dvd Ldb \<Longrightarrow> k < Ldb \<Longrightarrow> k + 8 \<le> (Ldb :: nat)"
  by presburger

lemma tile_below: "8 dvd n \<Longrightarrow> n + 8 \<le> N \<Longrightarrow> n + 8 \<le> 8 * (N div 8 :: nat)"
  by presburger

lemma tile_of_column:
  fixes col N :: nat
  assumes "col < 8 * (N div 8)"
  shows "8 * (col div 8) + 8 \<le> N"
proof -
  from assms have "col div 8 < N div 8"
    by (simp add: div_less_iff_less_mult mult.commute)
  then have "8 * (col div 8) + 8 \<le> 8 * (N div 8)"
    by simp
  also have "\<dots> \<le> N"
    by simp
  finally show ?thesis .
qed

lemma column_div:
  fixes col x Ldb :: nat
  assumes "x < Ldb"
  shows "(col * Ldb + x) div Ldb = col"
  using assms by simp

lemma columns_tiles_part:
  assumes "8 dvd Ldb" "0 < Ldb"
  shows "source_column Ldb ` set (tiles_part Ldb N) = {0..<8 * (N div 8)}"
proof (intro equalityI subsetI)
  fix col
  assume "col \<in> source_column Ldb ` set (tiles_part Ldb N)"
  then obtain n k c r where *: "8 dvd n" "n + 8 \<le> N" "8 dvd k" "k < Ldb" "c < 8" "r < 8"
    and col: "col = source_column Ldb (Transposed ((n + c) * Ldb + r + k) (n * Ldb + (r + k) * 8 + c))"
    unfolding set_tiles_part by auto
  from chunk_fits [OF *(3) assms(1) *(4)] * have "r + k < Ldb"
    by simp
  then have "((n + c) * Ldb + (r + k)) div Ldb = n + c"
    by (rule column_div)
  then have "col = n + c"
    by (simp add: col add.assoc)
  moreover have "n + 8 \<le> 8 * (N div 8)"
    using *(1,2) by (rule tile_below)
  ultimately show "col \<in> {0..<8 * (N div 8)}"
    using * by simp
next
  fix col
  assume "col \<in> {0..<8 * (N div 8)}"
  then have col: "col < 8 * (N div 8)"
    by simp
  let ?n = "8 * (col div 8)" and ?c = "col mod 8"
  let ?e = "Transposed ((?n + ?c) * Ldb + 0 + 0) (?n * Ldb + (0 + 0) * 8 + ?c)"
  have "?n + 8 \<le> N"
    using col by (rule tile_of_column)
  then have "?e \<in> set (tiles_part Ldb N)"
    unfolding set_tiles_part using assms by (intro CollectI exI [of _ ?n] exI [of _ 0] exI [of _ ?c] conjI refl) simp_all
  moreover have "source_column Ldb ?e = col"
    using assms by simp
  ultimately show "col \<in> source_column Ldb ` set (tiles_part Ldb N)"
    by (metis imageI)
qed

lemma columns_tail_part:
  assumes "8 dvd Ldb" "0 < Ldb"
  shows "source_column Ldb ` set (tail_part Ldb N) = {8 * (N div 8)..<N}"
proof (intro equalityI subsetI)
  fix col
  assume "col \<in> source_column Ldb ` set (tail_part Ldb N)"
  then obtain n k i where *: "8 * (N div 8) \<le> n" "n < N" "8 dvd k" "k < Ldb" "i < 8"
    and col: "col = source_column Ldb
      (Regrouped (n * Ldb + k + i div 2) (n * Ldb + k + (8 + i) div 2) i (n * Ldb + k + i))"
    unfolding set_tail_part by auto
  from chunk_fits [OF *(3) assms(1) *(4)] * have "k + i div 2 < Ldb"
    by linarith
  then have "(n * Ldb + (k + i div 2)) div Ldb = n"
    by (rule column_div)
  then have "col = n"
    by (simp add: col add.assoc)
  then show "col \<in> {8 * (N div 8)..<N}"
    using * by simp
next
  fix col
  assume "col \<in> {8 * (N div 8)..<N}"
  then have col: "8 * (N div 8) \<le> col" "col < N"
    by simp_all
  let ?e = "Regrouped (col * Ldb + 0 + 0 div 2) (col * Ldb + 0 + (8 + 0) div 2) 0 (col * Ldb + 0 + 0)"
  have "?e \<in> set (tail_part Ldb N)"
    unfolding set_tail_part using assms col
    by (intro CollectI exI [of _ col] exI [of _ 0] conjI refl) simp_all
  moreover have "source_column Ldb ?e = col"
    using assms by simp
  ultimately show "col \<in> source_column Ldb ` set (tail_part Ldb N)"
    by (metis imageI)
qed

lemma length_tiles_part:
  assumes "8 dvd Ldb"
  shows "length (tiles_part Ldb N) = N div 8 * (8 * Ldb)"
proof -
  have "size (image_mset store_of (mset (tiles_part Ldb N))) =
          size (mset_set {0 * Ldb..<tiles_end 0 N * Ldb})"
    unfolding tiles_part_def stores_tiles [OF assms] ..
  then show ?thesis
    by (simp add: tiles_end_0)
qed

lemma length_tail_part:
  assumes "8 dvd Ldb"
  shows "length (tail_part Ldb N) = N mod 8 * Ldb"
proof -
  have le: "tiles_end 0 N \<le> N"
    by (rule tiles_end_le) simp
  have "length (map store_of (tail_part Ldb N)) = length [tiles_end 0 N * Ldb..<N * Ldb]"
    unfolding tail_part_def stores_tail [OF assms le] ..
  then have "length (tail_part Ldb N) = N * Ldb - 8 * (N div 8) * Ldb"
    by (simp add: tiles_end_0)
  also have "\<dots> = (N - 8 * (N div 8)) * Ldb"
    by (simp add: diff_mult_distrib)
  also have "N - 8 * (N div 8) = N mod 8"
    by presburger
  finally show ?thesis .
qed

text \<open>
  With a block length of 8 the stride of \<open>K = 1\<close> is 4. In a matrix of 9 columns the
  transposition of the first tile writes beyond the \<open>9 * 4\<close> bytes of the destination,
  and the run has no defined result: no column reaches the regroup path.
\<close>

theorem tiles_then_tail_columns_counterexample:
  "TestPrepack_ref 9 1 8 (replicate (unat (BufferSize 9 1 8)) 0) = None"
proof -
  have L: "Ldb_of 1 8 = 4"
    by (simp add: Ldb_of_def Bits_def)
  have "Prepack 4 9 \<lparr>src_buf = replicate 36 0, dst_buf = replicate 36 0, journal = []\<rparr> = None"
    by code_simp
  then show ?thesis
    by (simp add: TestPrepack_ref_def BufferSize_def L)
qed

text \<open>
  Claim C4. A run of the packer on \<open>N\<close> columns and buffers of \<open>N * Ldb\<close> bytes
  (\<open>N * Ldb\<close> below \<open>2^64\<close>, the stride a positive multiple of 8, within \<^verbatim>\<open>INT_MAX\<close> unless
  \<open>N\<close> is a multiple of 8) first makes the assignments of the
  transpose path, which cover exactly the columns of \<open>N div 8\<close> full tiles (columns
  \<open>0\<close> to \<open>8 * (N div 8) - 1\<close>, \<open>8 * Ldb\<close> assignments per tile), and then the assignments
  of the regroup path, which cover exactly the remaining \<open>N mod 8\<close> columns (\<open>Ldb\<close>
  assignments per column). No column of a tile is left to the regroup path, and for
  \<open>N\<close> a multiple of 8 the regroup path makes no assignment.
\<close>

theorem tiles_then_tail_columns:
  assumes "8 dvd Ldb" "0 < Ldb" "Ldb \<le> INT_MAX \<or> 8 dvd N"
    and "length (src_buf s) = N * Ldb" "length (dst_buf s) = N * Ldb" "N * Ldb < 2 ^ 64"
  shows "\<exists>s'. Prepack Ldb N s = Some s' \<and>
           (\<exists>J1 J2. journal s' = journal s @ J1 @ J2 \<and>
              (\<forall>e \<in> set J1. path_of e = Transpose_path) \<and>
              source_column Ldb ` set J1 = {0..<8 * (N div 8)} \<and>
              length J1 = N div 8 * (8 * Ldb) \<and>
              (\<forall>e \<in> set J2. path_of e = Regroup_path) \<and>
              source_column Ldb ` set J2 = {8 * (N div 8)..<N} \<and>
              length J2 = N mod 8 * Ldb)"
proof -
  have "N + 8 < 2 ^ 64"
    using assms by (intro columns_fit [of Ldb]) simp_all
  then have run: "Prepack Ldb N s = Some (commit (Prepack_events Ldb N) s)"
    using assms by (intro Prepack_commit) simp_all
  have "\<forall>e \<in> set (tiles_part Ldb N). path_of e = Transpose_path"
    unfolding set_tiles_part by auto
  moreover have "\<forall>e \<in> set (tail_part Ldb N). path_of e = Regroup_path"
    unfolding set_tail_part by auto
  ultimately show ?thesis
    using run columns_tiles_part [OF assms(1,2), of N] columns_tail_part [OF assms(1,2), of N]
      length_tiles_part [OF assms(1), of N] length_tail_part [OF assms(1), of N]
    by (auto simp: Prepack_events_parts)
qed

theorem tiles_then_tail_columns_witness:
  "\<exists>s'. Prepack 8 17 \<lparr>src_buf = replicate 136 1, dst_buf = replicate 136 0, journal = []\<rparr> = Some s' \<and>
     (\<exists>J1 J2. journal s' = J1 @ J2 \<and>
        (\<forall>e \<in> set J1. path_of e = Transpose_path) \<and>
        source_column 8 ` set J1 = {0..<16} \<and> length J1 = 128 \<and>
        (\<forall>e \<in> set J2. path_of e = Regroup_path) \<and>
        source_column 8 ` set J2 = {16..<17} \<and> length J2 = 8)"
  using tiles_then_tail_columns [of 8 17
      "\<lparr>src_buf = replicate 136 1, dst_buf = replicate 136 0, journal = []\<rparr>"]
  by (simp add: INT_MAX_def)

section \<open>The stride formula\<close>

lemma K_padded_rounds_up:
  assumes "0 < BlkLen"
  shows "BlkLen dvd K_padded K BlkLen" "K \<le> K_padded K BlkLen" "K_padded K BlkLen < K + BlkLen"
proof -
  show "BlkLen dvd K_padded K BlkLen"
    by (simp add: K_padded_def)
  have eq: "K_padded K BlkLen = (K + BlkLen - 1) - (K + BlkLen - 1) mod BlkLen"
    by (simp add: K_padded_def minus_mod_eq_div_mult)
  have "(K + BlkLen - 1) mod BlkLen < BlkLen"
    using assms by simp
  then have "(K + BlkLen - 1) mod BlkLen \<le> BlkLen - 1"
    by simp
  then show "K \<le> K_padded K BlkLen"
    unfolding eq using assms by linarith
  show "K_padded K BlkLen < K + BlkLen"
    unfolding eq using assms by linarith
qed

lemma and_not_low_mask:
  fixes X :: size_t
  shows "X AND NOT (2 ^ m - 1) = push_bit m (drop_bit m X)"
  by (rule bit_word_eqI) (auto simp: bit_simps simp flip: mask_eq_exp_minus_1)

lemma unat_round_down:
  fixes X :: size_t
  shows "unat (X AND NOT (2 ^ m - 1)) = unat X div 2 ^ m * 2 ^ m"
proof -
  have "take_bit 64 (unat X) = unat X"
    using unsigned_less [of X] by (intro take_bit_nat_eq_self) simp
  then have "unat (push_bit m (drop_bit m X)) = take_bit 64 (push_bit m (drop_bit m (unat X)))"
    by (simp add: unsigned_push_bit_eq unsigned_drop_bit_eq)
  also have "push_bit m (drop_bit m (unat X)) = unat X div 2 ^ m * 2 ^ m"
    by (simp add: push_bit_eq_mult drop_bit_eq_div)
  also have "take_bit 64 (unat X div 2 ^ m * 2 ^ m) = unat X div 2 ^ m * 2 ^ m"
  proof (rule take_bit_nat_eq_self)
    have "unat X div 2 ^ m * 2 ^ m \<le> unat X"
      by simp
    also have "unat X < 2 ^ 64"
      using unsigned_less [of X] by simp
    finally show "unat X div 2 ^ m * 2 ^ m < 2 ^ 64" .
  qed
  finally show ?thesis
    by (simp add: and_not_low_mask)
qed

text \<open>
  Claim C8. For every \<open>K\<close> and every power-of-two block length \<open>2 ^ m\<close> for which
  \<open>K_padded * 4 + 7\<close> fits in \<^verbatim>\<open>size_t\<close>, the stride the test computes equals
  \<open>ceil(K_padded * 4 / 8)\<close>; and the size of the source, packed and reference buffers is
  \<open>N * Ldb\<close> whenever that product fits in \<^verbatim>\<open>size_t\<close>.
\<close>

theorem stride_formula:
  assumes "m < 64" and "K_padded (unat K) (2 ^ m) * 4 + 7 < 2 ^ 64"
  shows "unat (Ldb_of K (2 ^ m)) = Ldb_spec (unat K) (2 ^ m) \<and>
         (unat N * Ldb_spec (unat K) (2 ^ m) < 2 ^ 64 \<longrightarrow>
            unat (BufferSize N K (2 ^ m)) = unat N * Ldb_spec (unat K) (2 ^ m))"
proof -
  define B :: nat where "B = 2 ^ m"
  define P where "P = K_padded (unat K) B"
  have "(2 :: nat) ^ m < 2 ^ 64"
    using assms(1) by (intro power_strict_increasing) simp_all
  then have B: "0 < B" "B < 2 ^ 64"
    by (simp_all add: B_def)
  have fits: "P * 4 + 7 < 2 ^ 64"
    using assms(2) by (simp add: P_def B_def)
  have eq: "(2 ^ m - 1 :: size_t) = of_nat (B - 1)"
    by (simp add: B_def of_nat_diff)
  have "unat (of_nat (B - 1) :: size_t) = (B - 1) mod 2 ^ LENGTH(64)"
    by (rule unat_of_nat)
  also have "\<dots> = B - 1"
    using B by simp
  finally have unat_B: "unat (2 ^ m - 1 :: size_t) = B - 1"
    unfolding eq .
  have sum: "unat K + (B - 1) < 2 ^ 64"
  proof (cases "unat K = 0")
    case True
    with B show ?thesis by simp
  next
    case False
    have "B dvd P" "unat K \<le> P" "P < unat K + B"
      unfolding P_def using B(1) by (rule K_padded_rounds_up)+
    from False \<open>unat K \<le> P\<close> have "0 < P"
      by simp
    with \<open>B dvd P\<close> have "B \<le> P"
      by (rule dvd_imp_le)
    with \<open>P < unat K + B\<close> \<open>unat K \<le> P\<close> fits show ?thesis
      by linarith
  qed
  have X: "unat (K + 2 ^ m - 1) = unat K + B - 1"
  proof -
    have "K + 2 ^ m - 1 = K + (2 ^ m - 1)"
      by simp
    also have "unat \<dots> = unat K + unat (2 ^ m - 1 :: size_t)"
    proof (rule unat_add_lem [THEN iffD1])
      show "unat K + unat (2 ^ m - 1 :: size_t) < 2 ^ LENGTH(64)"
        using sum unat_B by simp
    qed
    finally show ?thesis
      using B(1) by (simp add: unat_B)
  qed
  have Y: "unat ((K + 2 ^ m - 1) AND NOT (2 ^ m - 1)) = P"
    by (simp add: unat_round_down X P_def K_padded_def B_def)
  have W: "unat (((K + 2 ^ m - 1) AND NOT (2 ^ m - 1)) * 4 + 7) = P * 4 + 7"
    using fits by (simp add: unat_word_ariths Y)
  have L: "unat (Ldb_of K (2 ^ m)) = Ldb_spec (unat K) (2 ^ m)"
    using W by (simp add: Ldb_of_def Bits_def unat_div Ldb_spec_def P_def B_def)
  then show ?thesis
    by (simp add: BufferSize_def unat_word_ariths)
qed

text \<open>
  For \<open>K = 2^62\<close> and block length 16 the product \<open>K_padded * 4\<close> is \<open>2^64\<close> and wraps
  to 0: the computed stride is 0, not \<open>2^61\<close>.
\<close>

theorem stride_formula_counterexample:
  "unat (Ldb_of 4611686018427387904 16) = 0 \<and>
   Ldb_spec 4611686018427387904 16 = 2305843009213693952"
  by (simp add: Ldb_of_def Bits_def Ldb_spec_def K_padded_def)

theorem stride_formula_witness:
  "unat (Ldb_of 33 (2 ^ 5)) = 32 \<and> unat (BufferSize 9 33 (2 ^ 5)) = 288"
  using stride_formula [of 5 33 9]
  by (simp add: Ldb_spec_def K_padded_def)

section \<open>Nibbles of the packed buffer\<close>

lemma mset_concat_map: "mset (concat (map f xs)) = (\<Sum>x\<in>#mset xs. mset (f x))"
  by (induction xs) simp_all

lemma mset_nibbles: "mset (nibbles buf) = (\<Sum>b\<in>#mset buf. mset (nibbles_of b))"
  by (simp add: nibbles_def mset_concat_map)

lemma mset_buffer: "mset buf = image_mset ((!) buf) (mset_set {0..<length buf})"
proof -
  have "mset (map ((!) buf) [0..<length buf]) = image_mset ((!) buf) (mset_set {0..<length buf})"
    by simp
  then show ?thesis
    by (simp only: map_nth)
qed

lemma mset_dst_after_Prepack:
  assumes "8 dvd Ldb" "length (dst_buf s) = N * Ldb"
  shows "mset (dst_buf (commit (Prepack_events Ldb N) s)) =
           image_mset (value_of (src_buf s)) (mset (Prepack_events Ldb N))"
proof -
  let ?d = "dst_buf (commit (Prepack_events Ldb N) s)"
  have "mset ?d = image_mset ((!) ?d) (mset_set {0..<N * Ldb})"
    using mset_buffer [of ?d] assms(2) by simp
  also have "\<dots> = image_mset ((!) ?d) (image_mset store_of (mset (Prepack_events Ldb N)))"
    by (simp only: stores_Prepack_events [OF assms(1)])
  also have "\<dots> = image_mset (\<lambda>e. ?d ! store_of e) (mset (Prepack_events Ldb N))"
    by (simp add: multiset.map_comp comp_def)
  also have "\<dots> = image_mset (value_of (src_buf s)) (mset (Prepack_events Ldb N))"
    by (rule image_mset_cong) (simp add: dst_after_Prepack [OF assms])
  finally show ?thesis .
qed

lemma nibbles_of_regroup:
  "nibbles_of (GetInt4 x i OR push_bit 4 (GetInt4 y e)) = [GetInt4 x i, GetInt4 y e]"
  unfolding nibbles_of_def by (simp only: regroup_low regroup_high)

lemma value_of_slice:
  "mset (nibbles_of (value_of src (Regrouped (j + i div 2) (j + (8 + i) div 2) i (j + i)))) =
     {#GetInt4 (src ! (j + i div 2)) i, GetInt4 (src ! (j + (8 + i) div 2)) (i + 8)#}"
  by (simp only: value_of.simps nibbles_of_regroup mset.simps)

lemma upt_shift_8: "[j..<j + 8] = map (\<lambda>t. j + t) [0..<8]"
  using map_add_upt [of j 8] by (simp add: add.commute)

lemma slice_nibbles:
  "(\<Sum>e\<in>#mset (slice_events j). mset (nibbles_of (value_of src e))) =
   (\<Sum>x\<in>#mset_set {j..<j + 8}. mset (nibbles_of (src ! x)))"
proof -
  have "(\<Sum>e\<in>#mset (slice_events j). mset (nibbles_of (value_of src e))) =
      (\<Sum>i\<in>#mset [0..<8].
         {#GetInt4 (src ! (j + i div 2)) i, GetInt4 (src ! (j + (8 + i) div 2)) (i + 8)#})"
    unfolding slice_events_def
    by (simp add: multiset.map_comp comp_def value_of_slice del: value_of.simps mset_upt)
  also have "\<dots> = (\<Sum>x\<in>#mset [j..<j + 8]. mset (nibbles_of (src ! x)))"
    unfolding upt_shift_8 upt_8
    by (simp add: GetInt4_parity nibbles_of_def)
  finally show ?thesis by simp
qed

lemma sum_mset_concat_map:
  "(\<Sum>e\<in>#mset (concat (map f ks)). G e) = (\<Sum>k\<in>#mset ks. \<Sum>e\<in>#mset (f k). G e)"
  by (induction ks) simp_all

lemma mset_concat_concat_swap:
  "mset (concat (map (\<lambda>k. concat (map (\<lambda>c. F c k) cs)) ks)) =
   mset (concat (map (\<lambda>c. concat (map (\<lambda>k. F c k) ks)) cs))"
proof -
  have "mset (concat (map (\<lambda>k. concat (map (\<lambda>c. F c k) cs)) ks)) =
      (\<Sum>k\<in>#mset ks. \<Sum>c\<in>#mset cs. mset (F c k))"
    by (simp add: mset_concat_map)
  also have "\<dots> = (\<Sum>c\<in>#mset cs. \<Sum>k\<in>#mset ks. mset (F c k))"
    by (rule sum_mset.swap)
  also have "\<dots> = mset (concat (map (\<lambda>c. concat (map (\<lambda>k. F c k) ks)) cs))"
    by (simp add: mset_concat_map)
  finally show ?thesis .
qed

lemma concat_chunks_upt:
  assumes "8 dvd k" "8 dvd Ldb" "k \<le> Ldb"
  shows "concat (map (\<lambda>k. [b + k..<b + k + 8]) (offsets k Ldb)) = [b + k..<b + Ldb]"
  using assms
proof (induction k Ldb rule: offsets.induct)
  case (1 k Ldb)
  show ?case
  proof (cases "k < Ldb")
    case False
    then have "offsets k Ldb = []"
      by (simp add: offsets.simps [of k])
    with False "1.prems" show ?thesis by simp
  next
    case True
    have k8: "k + 8 \<le> Ldb"
      using "1.prems"(1,2) True by (rule chunk_fits)
    have IH: "concat (map (\<lambda>k. [b + k..<b + k + 8]) (offsets (k + 8) Ldb)) =
           [b + (k + 8)..<b + Ldb]"
      using True k8 "1.prems" by (intro "1.IH") simp_all
    have "[b + k..<b + k + 8 + (Ldb - (k + 8))] =
          [b + k..<b + k + 8] @ [b + k + 8..<b + k + 8 + (Ldb - (k + 8))]"
      by (intro upt_add_eq_append) simp
    moreover have "b + k + 8 + (Ldb - (k + 8)) = b + Ldb"
      using k8 by simp
    moreover have "offsets k Ldb = k # offsets (k + 8) Ldb"
      using True by (simp add: offsets.simps [of k])
    ultimately show ?thesis
      using IH by (simp add: add.assoc)
  qed
qed

lemma concat_columns_upt:
  "a \<le> b \<Longrightarrow> concat (map (\<lambda>n. [n * Ldb..<n * Ldb + Ldb]) [a..<b]) = [a * Ldb..<b * Ldb]"
proof (induction b)
  case 0
  then show ?case by simp
next
  case (Suc b)
  show ?case
  proof (cases "a = Suc b")
    case True
    then show ?thesis by simp
  next
    case False
    with Suc.prems have le: "a \<le> b" by simp
    then have "a * Ldb \<le> b * Ldb"
      by (rule mult_le_mono1)
    then have "[a * Ldb..<b * Ldb + Ldb] = [a * Ldb..<b * Ldb] @ [b * Ldb..<b * Ldb + Ldb]"
      by (rule upt_add_eq_append)
    with le Suc.IH show ?thesis
      by (simp add: add.commute)
  qed
qed

lemma loads_tile_events:
  "map source_index (tile_events Ldb n k) =
     concat (map (\<lambda>c. [(n + c) * Ldb + k..<(n + c) * Ldb + k + 8]) [0..<8])"
proof -
  have "map source_index (tile_events Ldb n k) =
      concat (map (\<lambda>c. map (\<lambda>r. (n + c) * Ldb + k + r) [0..<8]) [0..<8])"
    by (simp add: tile_events_def map_concat comp_def add_ac)
  then show ?thesis
    by (simp only: row_upt)
qed

lemma loads_tile_column:
  assumes "8 dvd Ldb"
  shows "image_mset source_index (mset (tile_column_events Ldb n)) =
           mset_set {n * Ldb..<(n + 8) * Ldb}"
proof -
  have "mset (map source_index (tile_column_events Ldb n)) =
      mset (concat (map (\<lambda>k. concat (map (\<lambda>c. [(n + c) * Ldb + k..<(n + c) * Ldb + k + 8]) [0..<8]))
             (offsets 0 Ldb)))"
    by (simp only: tile_column_events_def map_concat map_map comp_def loads_tile_events)
  also have "\<dots> =
      mset (concat (map (\<lambda>c. concat (map (\<lambda>k. [(n + c) * Ldb + k..<(n + c) * Ldb + k + 8])
             (offsets 0 Ldb))) [0..<8]))"
    by (rule mset_concat_concat_swap)
  also have "(\<lambda>c. concat (map (\<lambda>k. [(n + c) * Ldb + k..<(n + c) * Ldb + k + 8]) (offsets 0 Ldb))) =
      (\<lambda>c. [(n + c) * Ldb..<(n + c) * Ldb + Ldb])"
    using concat_chunks_upt [of 0 Ldb] assms by simp
  also have "concat (map (\<lambda>c. [(n + c) * Ldb..<(n + c) * Ldb + Ldb]) [0..<8]) =
      concat (map (\<lambda>c. [c * Ldb..<c * Ldb + Ldb]) (map (\<lambda>c. n + c) [0..<8]))"
    by (simp only: map_map comp_def)
  also have "map (\<lambda>c. n + c) [0..<8] = [n..<n + 8]"
    by (rule row_upt)
  also have "concat (map (\<lambda>c. [c * Ldb..<c * Ldb + Ldb]) [n..<n + 8]) = [n * Ldb..<(n + 8) * Ldb]"
    by (rule concat_columns_upt) simp
  finally show ?thesis
    by simp
qed

lemma tiles_image_mset:
  assumes "\<And>n. image_mset f (mset (tile_column_events Ldb n)) = mset_set {n * Ldb..<(n + 8) * Ldb}"
  shows "image_mset f (mset (concat (map (tile_column_events Ldb) (tile_starts n N)))) =
           mset_set {n * Ldb..<tiles_end n N * Ldb}"
proof (induction n N rule: tile_starts.induct)
  case (1 n N)
  show ?case
  proof (cases "n + 8 \<le> N")
    case False
    then show ?thesis
      by (simp add: tile_starts.simps [of n] tiles_end.simps [of n])
  next
    case True
    have "n + 8 \<le> tiles_end (n + 8) N"
      by (rule tiles_end_ge)
    then have "(n + 8) * Ldb \<le> tiles_end (n + 8) N * Ldb"
      by (rule mult_le_mono1)
    then have "mset_set {n * Ldb..<(n + 8) * Ldb} +
          mset_set {(n + 8) * Ldb..<tiles_end (n + 8) N * Ldb} =
          mset_set {n * Ldb..<tiles_end (n + 8) N * Ldb}"
      by (intro mset_set_upt_append) simp_all
    with True "1.IH" show ?thesis
      by (simp add: tile_starts.simps [of n] tiles_end.simps [of n] assms)
  qed
qed

lemma loads_tiles_part:
  assumes "8 dvd Ldb"
  shows "image_mset source_index (mset (tiles_part Ldb N)) = mset_set {0..<tiles_end 0 N * Ldb}"
  using tiles_image_mset [of source_index Ldb 0 N, OF loads_tile_column [OF assms]]
  by (simp add: tiles_part_def)

lemma tiles_nibbles:
  assumes "8 dvd Ldb"
  shows "(\<Sum>e\<in>#mset (tiles_part Ldb N). mset (nibbles_of (value_of src e))) =
         (\<Sum>x\<in>#mset_set {0..<tiles_end 0 N * Ldb}. mset (nibbles_of (src ! x)))"
proof -
  have "image_mset (\<lambda>e. mset (nibbles_of (value_of src e))) (mset (tiles_part Ldb N)) =
      image_mset (\<lambda>e. mset (nibbles_of (src ! source_index e))) (mset (tiles_part Ldb N))"
    by (rule image_mset_cong) (auto simp: set_tiles_part)
  also have "\<dots> = image_mset (\<lambda>x. mset (nibbles_of (src ! x)))
      (image_mset source_index (mset (tiles_part Ldb N)))"
    by (simp add: multiset.map_comp comp_def)
  finally show ?thesis
    by (simp only: loads_tiles_part [OF assms])
qed

lemma tail_column_nibbles:
  assumes "8 dvd Ldb"
  shows "(\<Sum>e\<in>#mset (tail_column_events Ldb n). mset (nibbles_of (value_of src e))) =
         (\<Sum>x\<in>#mset [n * Ldb..<n * Ldb + Ldb]. mset (nibbles_of (src ! x)))"
proof -
  have "(\<Sum>e\<in>#mset (tail_column_events Ldb n). mset (nibbles_of (value_of src e))) =
      (\<Sum>k\<in>#mset (offsets 0 Ldb).
         \<Sum>x\<in>#mset [n * Ldb + k..<n * Ldb + k + 8]. mset (nibbles_of (src ! x)))"
    unfolding tail_column_events_def sum_mset_concat_map
    by (simp only: slice_nibbles mset_upt)
  also have "\<dots> = (\<Sum>x\<in>#mset (concat (map (\<lambda>k. [n * Ldb + k..<n * Ldb + k + 8]) (offsets 0 Ldb))).
         mset (nibbles_of (src ! x)))"
    by (simp only: sum_mset_concat_map)
  also have "concat (map (\<lambda>k. [n * Ldb + k..<n * Ldb + k + 8]) (offsets 0 Ldb)) =
      [n * Ldb + 0..<n * Ldb + Ldb]"
    using assms by (intro concat_chunks_upt) simp_all
  finally show ?thesis
    by simp
qed

lemma tail_nibbles:
  assumes "8 dvd Ldb"
  shows "(\<Sum>e\<in>#mset (tail_part Ldb N). mset (nibbles_of (value_of src e))) =
         (\<Sum>x\<in>#mset_set {tiles_end 0 N * Ldb..<N * Ldb}. mset (nibbles_of (src ! x)))"
proof -
  have le: "tiles_end 0 N \<le> N"
    by (rule tiles_end_le) simp
  have "(\<Sum>e\<in>#mset (tail_part Ldb N). mset (nibbles_of (value_of src e))) =
      (\<Sum>n\<in>#mset [tiles_end 0 N..<N].
         \<Sum>x\<in>#mset [n * Ldb..<n * Ldb + Ldb]. mset (nibbles_of (src ! x)))"
    unfolding tail_part_def sum_mset_concat_map
    by (simp only: tail_column_nibbles [OF assms])
  also have "\<dots> = (\<Sum>x\<in>#mset (concat (map (\<lambda>n. [n * Ldb..<n * Ldb + Ldb]) [tiles_end 0 N..<N])).
         mset (nibbles_of (src ! x)))"
    by (simp only: sum_mset_concat_map)
  also have "concat (map (\<lambda>n. [n * Ldb..<n * Ldb + Ldb]) [tiles_end 0 N..<N]) =
      [tiles_end 0 N * Ldb..<N * Ldb]"
    using le by (rule concat_columns_upt)
  finally show ?thesis
    by simp
qed

lemma nibbles_preserved:
  assumes "8 dvd Ldb" "length (src_buf s) = N * Ldb" "length (dst_buf s) = N * Ldb"
  shows "mset (nibbles (dst_buf (commit (Prepack_events Ldb N) s))) = mset (nibbles (src_buf s))"
proof -
  let ?g = "\<lambda>x. mset (nibbles_of (src_buf s ! x))"
  have le: "tiles_end 0 N * Ldb \<le> N * Ldb"
    by (intro mult_le_mono1 tiles_end_le) simp
  have "mset (nibbles (dst_buf (commit (Prepack_events Ldb N) s))) =
      (\<Sum>e\<in>#mset (Prepack_events Ldb N). mset (nibbles_of (value_of (src_buf s) e)))"
    by (simp add: mset_nibbles mset_dst_after_Prepack [OF assms(1,3)] multiset.map_comp comp_def)
  also have "\<dots> = (\<Sum>x\<in>#mset_set {0..<tiles_end 0 N * Ldb}. ?g x) +
      (\<Sum>x\<in>#mset_set {tiles_end 0 N * Ldb..<N * Ldb}. ?g x)"
    by (simp add: Prepack_events_parts tiles_nibbles [OF assms(1)] tail_nibbles [OF assms(1)])
  also have "\<dots> = (\<Sum>x\<in>#mset_set {0..<tiles_end 0 N * Ldb} +
      mset_set {tiles_end 0 N * Ldb..<N * Ldb}. ?g x)"
    by simp
  also have "mset_set {0..<tiles_end 0 N * Ldb} + mset_set {tiles_end 0 N * Ldb..<N * Ldb} =
      mset_set {0..<N * Ldb}"
    using le by (intro mset_set_upt_append) simp_all
  also have "(\<Sum>x\<in>#mset_set {0..<N * Ldb}. ?g x) = mset (nibbles (src_buf s))"
    using mset_buffer [of "src_buf s"] assms(2)
    by (simp add: mset_nibbles multiset.map_comp comp_def)
  finally show ?thesis .
qed

section \<open>The packed addressing rule\<close>

lemma tile_byte_after_Prepack:
  assumes "8 dvd Ldb" "length (dst_buf s) = N * Ldb"
    and "8 dvd n" "n + 8 \<le> N" "8 dvd k" "k < Ldb" "r < 8" "c < 8"
  shows "dst_buf (commit (Prepack_events Ldb N) s) ! (n * Ldb + (r + k) * 8 + c) =
           src_buf s ! ((n + c) * Ldb + (r + k))"
  using dst_after_Prepack [OF assms(1,2) Transposed_in_Prepack_events [OF assms(3-6,8,7)]]
  by (simp add: add.assoc)

lemma tail_byte_after_Prepack:
  assumes "8 dvd Ldb" "length (dst_buf s) = N * Ldb"
    and "8 * (N div 8) \<le> n" "n < N" "8 dvd k" "k < Ldb" "i < 8"
  shows "dst_buf (commit (Prepack_events Ldb N) s) ! (n * Ldb + k + i) =
           GetInt4 (src_buf s ! (n * Ldb + k + i div 2)) i OR
           push_bit 4 (GetInt4 (src_buf s ! (n * Ldb + k + (8 + i) div 2)) (i + 8))"
  using dst_after_Prepack [OF assms(1,2) Regrouped_in_Prepack_events [OF assms(3-7)]]
  by simp

lemma row_chunk_below:
  fixes x Ldb :: nat
  assumes "8 dvd Ldb" "x < Ldb"
  shows "8 * (x div 8) < Ldb"
proof -
  have "8 * (x div 8) \<le> x"
    by simp
  with assms(2) show ?thesis
    by linarith
qed

lemma packed_nibble_tile:
  assumes "8 dvd Ldb" "length (dst_buf s) = N * Ldb" "col < 8 * (N div 8)" "e < 2 * Ldb"
  shows "packed_nibble Ldb N (dst_buf (commit (Prepack_events Ldb N) s)) col e =
           source_nibble Ldb (src_buf s) col e"
proof -
  let ?n = "8 * (col div 8)" and ?c = "col mod 8"
  let ?k = "8 * (e div 2 div 8)" and ?r = "e div 2 mod 8"
  have x: "e div 2 < Ldb"
    using assms(4) by simp
  have "dst_buf (commit (Prepack_events Ldb N) s) ! (?n * Ldb + (?r + ?k) * 8 + ?c) =
      src_buf s ! ((?n + ?c) * Ldb + (?r + ?k))"
    using assms(1,2)
  proof (rule tile_byte_after_Prepack)
    show "?n + 8 \<le> N"
      using assms(3) by (rule tile_of_column)
    show "?k < Ldb"
      using assms(1) x by (rule row_chunk_below)
  qed simp_all
  moreover have "?r + ?k = e div 2"
    by simp
  moreover have "?n + ?c = col"
    by simp
  ultimately have "dst_buf (commit (Prepack_events Ldb N) s) ! (?n * Ldb + e div 2 * 8 + ?c) =
      src_buf s ! (col * Ldb + e div 2)"
    by simp
  then show ?thesis
    using assms(3)
    by (simp add: packed_nibble_def source_nibble_def source_element_def mult.commute mult.left_commute)
qed

lemma element_split:
  fixes e :: nat
  shows "e div 2 = 8 * (e div 16) + e mod 16 div 2" "e mod 8 = e mod 16 mod 8"
proof -
  have A: "e mod 16 + 2 * (8 * (e div 16)) = e"
    by simp
  have "(e mod 16 + 2 * (8 * (e div 16))) div 2 = 8 * (e div 16) + e mod 16 div 2"
    by (rule div_mult_self2) simp
  then show "e div 2 = 8 * (e div 16) + e mod 16 div 2"
    by (simp only: A)
  have B: "e mod 16 + 8 * (2 * (e div 16)) = e"
    by simp
  have "(e mod 16 + 8 * (2 * (e div 16))) mod 8 = e mod 16 mod 8"
    by (rule mod_mult_self2)
  then show "e mod 8 = e mod 16 mod 8"
    by (simp only: B)
qed

lemma element_low_half:
  fixes e :: nat
  assumes "e mod 16 < 8"
  shows "e div 2 = 8 * (e div 16) + e mod 8 div 2"
proof -
  from assms have "e mod 16 mod 8 = e mod 16"
    by (rule mod_less)
  then have "e mod 8 = e mod 16"
    using element_split(2) [of e] by (rule subst)
  then show ?thesis
    using element_split(1) [of e] by (rule ssubst)
qed

lemma element_high_half:
  fixes e :: nat
  assumes "\<not> e mod 16 < 8"
  shows "e div 2 = 8 * (e div 16) + (8 + e mod 8) div 2"
proof -
  define p where "p = e mod 16"
  have "p < 16"
    by (simp add: p_def)
  moreover from assms have "8 \<le> p"
    by (simp add: p_def)
  ultimately have "8 + p mod 8 = p"
    by presburger
  moreover have "e mod 8 = p mod 8"
    unfolding p_def by (rule element_split(2))
  ultimately have "8 + e mod 8 = e mod 16"
    unfolding p_def by linarith
  then show ?thesis
    using element_split(1) [of e] by (rule ssubst)
qed

lemma element_parity: "even (e mod 8) = even (e :: nat)"
  by presburger

lemma element_chunk_below:
  fixes e Ldb :: nat
  assumes "8 dvd Ldb" "e < 2 * Ldb"
  shows "8 * (e div 16) < Ldb"
proof -
  from assms(1) obtain t where t: "Ldb = 8 * t"
    by (auto simp: dvd_def)
  with assms(2) have "e < t * 16"
    by simp
  then have "e div 16 < t"
    by (simp add: div_less_iff_less_mult)
  with t show ?thesis
    by simp
qed

lemma packed_nibble_tail:
  assumes "8 dvd Ldb" "length (dst_buf s) = N * Ldb" "8 * (N div 8) \<le> col" "col < N"
    "e < 2 * Ldb"
  shows "packed_nibble Ldb N (dst_buf (commit (Prepack_events Ldb N) s)) col e =
           source_nibble Ldb (src_buf s) col e"
proof -
  let ?k = "8 * (e div 16)" and ?i = "e mod 8"
  let ?d = "dst_buf (commit (Prepack_events Ldb N) s)"
  have k: "?k < Ldb"
    using assms(1,5) by (rule element_chunk_below)
  have val: "?d ! (col * Ldb + ?k + ?i) =
      GetInt4 (src_buf s ! (col * Ldb + ?k + ?i div 2)) ?i OR
      push_bit 4 (GetInt4 (src_buf s ! (col * Ldb + ?k + (8 + ?i) div 2)) (?i + 8))"
    using assms(1-4) _ k by (rule tail_byte_after_Prepack) simp_all
  have tail: "\<not> col < 8 * (N div 8)"
    using assms(3) by simp
  show ?thesis
  proof (cases "e mod 16 < 8")
    case True
    have "?d ! (col * Ldb + ?k + ?i) AND 0x0f = GetInt4 (src_buf s ! (col * Ldb + ?k + ?i div 2)) ?i"
      unfolding val by (rule regroup_low)
    also have "\<dots> = source_element (src_buf s) (col * Ldb) e"
      using element_low_half [OF True]
      by (simp add: GetInt4_parity source_element_def element_parity add.assoc)
    finally show ?thesis
      using True tail by (simp add: packed_nibble_def source_nibble_def mult.commute)
  next
    case False
    have "drop_bit 4 (?d ! (col * Ldb + ?k + ?i)) =
        GetInt4 (src_buf s ! (col * Ldb + ?k + (8 + ?i) div 2)) (?i + 8)"
      unfolding val by (rule regroup_high)
    also have "\<dots> = source_element (src_buf s) (col * Ldb) e"
      using element_high_half [OF False]
      by (simp add: GetInt4_parity source_element_def element_parity add.assoc)
    finally show ?thesis
      using False tail by (simp add: packed_nibble_def source_nibble_def mult.commute)
  qed
qed

lemma packed_nibble_after_Prepack:
  assumes "8 dvd Ldb" "length (dst_buf s) = N * Ldb" "col < N" "e < 2 * Ldb"
  shows "packed_nibble Ldb N (dst_buf (commit (Prepack_events Ldb N) s)) col e =
           source_nibble Ldb (src_buf s) col e"
proof (cases "col < 8 * (N div 8)")
  case True
  with assms show ?thesis
    by (intro packed_nibble_tile)
next
  case False
  with assms show ?thesis
    by (intro packed_nibble_tail) simp_all
qed

lemma mappings_after_Prepack:
  assumes "8 dvd Ldb" "length (dst_buf s) = N * Ldb"
  shows "mappings Ldb N (packed_nibble Ldb N (dst_buf (commit (Prepack_events Ldb N) s))) =
         mappings Ldb N (source_nibble Ldb (src_buf s))"
  unfolding mappings_def
  by (rule map_cong) (auto simp: packed_nibble_after_Prepack [OF assms])

text \<open>
  With block length 8 and \<open>K = 1\<close> the stride is 4 bytes: for one column the regroup
  path reads \<^verbatim>\<open>src[4]\<close> and beyond, outside the 4-byte buffer.
\<close>

theorem packing_is_a_permutation_counterexample:
  "TestPrepack_ref 1 1 (2 ^ 3) (replicate (unat (BufferSize 1 1 (2 ^ 3))) 0) = None"
proof -
  have L: "Ldb_of 1 8 = 4"
    by (simp add: Ldb_of_def Bits_def)
  let ?s = "\<lparr>src_buf = replicate 4 (0 :: byte), dst_buf = replicate 4 (0 :: byte), journal = []\<rparr>"
  have "PrepackSlice_body 0 0 ?s = None"
    by (simp add: PrepackSlice_body_def load_src_def)
  then have "PrepackSlice (0 * 4 + 0) ?s = None"
    by (simp add: PrepackSlice_def upt_8)
  then have "Prepack_tail_chunks 4 0 0 ?s = None"
    by (simp add: Prepack_tail_chunks.simps [of 4 0 0])
  then have "Prepack_tail 4 1 0 ?s = None"
    by (subst Prepack_tail.simps) simp
  moreover have "Prepack_tiles 4 1 0 ?s = Some (0, ?s)"
    by (subst Prepack_tiles.simps) simp
  ultimately have "Prepack 4 1 ?s = None"
    by (simp add: Prepack_def)
  then show ?thesis
    by (simp add: TestPrepack_ref_def BufferSize_def L)
qed

text \<open>
  Claim C1. For a power-of-two block length of at least 16 and buffers of \<open>N * Ldb\<close>
  bytes (\<open>N + 8\<close> and \<open>N * Ldb\<close> below \<open>2^64\<close>, stride within \<^verbatim>\<open>INT_MAX\<close> unless \<open>N\<close> is a
  multiple of 8), the packer returns a
  buffer of the same size \<open>N * Ldb\<close>; the \<open>(column, index) \<rightarrow> value\<close> mappings read from
  it by the packed addressing rule are those read from the source; and its 4-bit values
  are, as a multiset, those of the source: none is created, dropped or altered.
\<close>

theorem packing_is_a_permutation:
  assumes "4 \<le> m" "m < 64" "Ldb = unat (Ldb_of K (2 ^ m))"
    and "Ldb \<le> INT_MAX \<or> 8 dvd N"
    and "length (src_buf s) = N * Ldb" "length (dst_buf s) = N * Ldb"
    and "N * Ldb < 2 ^ 64" "N + 8 < 2 ^ 64"
  shows "\<exists>s'. Prepack Ldb N s = Some s' \<and> length (dst_buf s') = N * Ldb \<and>
           mset (mappings Ldb N (packed_nibble Ldb N (dst_buf s'))) =
             mset (mappings Ldb N (source_nibble Ldb (src_buf s))) \<and>
           mset (nibbles (dst_buf s')) = mset (nibbles (src_buf s))"
proof -
  have 8: "8 dvd Ldb"
    unfolding assms(3) using assms(1) by (rule Ldb_of_multiple_of_8)
  then have "Prepack Ldb N s = Some (commit (Prepack_events Ldb N) s)"
    using assms by (intro Prepack_commit) simp_all
  then show ?thesis
    using mappings_after_Prepack [OF 8 assms(6)] nibbles_preserved [OF 8 assms(5,6)] assms(6)
    by simp
qed

theorem packing_is_a_permutation_witness:
  "\<exists>s'. Prepack 8 9 \<lparr>src_buf = replicate 72 0x21, dst_buf = replicate 72 0, journal = []\<rparr> = Some s' \<and>
        length (dst_buf s') = 72 \<and>
        mset (mappings 8 9 (packed_nibble 8 9 (dst_buf s'))) =
          mset (mappings 8 9 (source_nibble 8 (replicate 72 0x21))) \<and>
        mset (nibbles (dst_buf s')) = mset (nibbles (replicate 72 0x21))"
proof -
  have L: "unat (Ldb_of 16 16) = 8"
    by (simp add: Ldb_of_def Bits_def)
  show ?thesis
    using packing_is_a_permutation [of 4 8 16 9
        "\<lparr>src_buf = replicate 72 0x21, dst_buf = replicate 72 0, journal = []\<rparr>"]
    by (simp add: L INT_MAX_def)
qed

section \<open>Properties of the cast tests and kernels\<close>






text \<open>
  Claim C5. The test is meant to establish exact widening on every pattern that does not
  encode infinity or NaN. Its mask is \<^verbatim>\<open>0x1c00\<close>, not \<^verbatim>\<open>0x7C00\<close>: the pattern
  \<^verbatim>\<open>0x1c00\<close> (exponent field 7, the finite value \<open>2^-8\<close>) is skipped, and the test passes
  for a kernel that returns any value \<open>bad\<close> there.
\<close>

theorem finite_pattern_not_compared:
  "skips_comparison 0x1c00 \<and> \<not> encodes_inf_or_nan 0x1c00 \<and>
   TestFp16ToFp32 65536
     (\<lambda>src cnt. map (\<lambda>p. if p = 0x1c00 then bad else reference p) (take cnt src)) reference"
proof -
  have "skips_comparison 0x1c00" "\<not> encodes_inf_or_nan 0x1c00"
    by (simp_all add: skips_comparison_def encodes_inf_or_nan_def)
  moreover have "TestFp16ToFp32 cnt
     (\<lambda>src cnt. map (\<lambda>p. if p = 0x1c00 then bad else reference p) (take cnt src)) reference"
    for cnt
    using \<open>skips_comparison 0x1c00\<close>
    by (auto simp: TestFp16ToFp32_def list_all_iff)
  ultimately show ?thesis
    by simp
qed




section \<open>Runs on concrete buffers\<close>

text \<open>
  The model evaluated directly: one tail column, one full tile, the journal of a tile
  followed by a tail column, and the strides of the parameters the test instantiates.
\<close>

lemma Prepack_tail_example:
  "map_option dst_buf
     (Prepack 8 1 \<lparr>src_buf = [0x10, 0x32, 0x54, 0x76, 0x98, 0xBA, 0xDC, 0xFE],
                  dst_buf = replicate 8 0, journal = []\<rparr>) =
   Some [0x80, 0x91, 0xA2, 0xB3, 0xC4, 0xD5, 0xE6, 0xF7]"
  by code_simp

lemma Prepack_tile_example:
  "map_option (\<lambda>s. take 10 (dst_buf s))
     (Prepack 8 8 \<lparr>src_buf = map of_nat [0..<64], dst_buf = replicate 64 0, journal = []\<rparr>) =
   Some [0, 8, 16, 24, 32, 40, 48, 56, 1, 9]"
  by code_simp

lemma Prepack_journal_example:
  "map_option (\<lambda>s. (take 2 (journal s), drop 64 (journal s)))
     (Prepack 8 9 \<lparr>src_buf = replicate 72 0, dst_buf = replicate 72 0, journal = []\<rparr>) =
   Some ([Transposed 0 0, Transposed 1 8],
         [Regrouped 64 68 0 64, Regrouped 64 68 1 65, Regrouped 65 69 2 66, Regrouped 65 69 3 67,
          Regrouped 66 70 4 68, Regrouped 66 70 5 69, Regrouped 67 71 6 70, Regrouped 67 71 7 71])"
  by code_simp

lemma Ldb_of_test_parameters:
  "map (\<lambda>(K, BlkLen). Ldb_of K BlkLen)
     [(1, 16), (15, 16), (31, 16), (16, 16), (33, 32), (33, 16), (67, 16), (96, 128)] =
   [8, 8, 16, 8, 32, 24, 40, 64]"
  by (simp add: Ldb_of_def Bits_def)

end
